theory Spec2Isabelle
  imports Main "HOL-Library.Sublist"
begin

section \<open>The host scheduler\<close>

text \<open>
  Modelled from the spec: \<^verbatim>\<open>schedule\<close> and \<^verbatim>\<open>unschedule\<close> of
  \<^verbatim>\<open>packages/utils/src/schedule.ts\<close> are bound to host functions
  (\<^verbatim>\<open>requestAnimationFrame || setImmediate || setTimeout\<close> and the matching cancel
  functions) whose code is not part of the repository. Section 5 of the specification
  describes them as a primitive that schedules a zero-argument callback for a later turn
  of the event loop and cancels a not-yet-run callback by an opaque handle. The handle is
  a non-zero number (the callers use \<^verbatim>\<open>0\<close> for "nothing scheduled"), fresh for every
  call. The callback is represented by a tag of type \<open>'t\<close>.
\<close>

record 't scheduler =
  lastId :: nat
  pending :: "(nat \<times> 't) list"

definition schedule :: "'t \<Rightarrow> 't scheduler \<Rightarrow> nat \<times> 't scheduler" where
  "schedule cb h =
     (Suc (lastId h),
      h\<lparr>lastId := Suc (lastId h), pending := pending h @ [(Suc (lastId h), cb)]\<rparr>)"

definition unschedule :: "nat \<Rightarrow> 't scheduler \<Rightarrow> 't scheduler" where
  "unschedule i h = h\<lparr>pending := filter (\<lambda>t. fst t \<noteq> i) (pending h)\<rparr>"

section \<open>The deferred cleaner (\<^verbatim>\<open>ScheduledCleaner\<close>)\<close>

text \<open>
  \<^verbatim>\<open>packages/utils/src/schedule.ts\<close>, class \<^verbatim>\<open>ScheduledCleaner\<close>. An array handed to
  \<^verbatim>\<open>clean\<close> is a JavaScript object; the set \<^verbatim>\<open>dirtySet\<close> holds array identities, here
  values of type \<open>'a\<close>. The contents of the arrays live in a store \<open>'a \<Rightarrow> 'v list\<close>.
  The constructor argument \<^verbatim>\<open>shouldRemove\<close> is a parameter of \<open>dump\<close>.
\<close>

record 'a ScheduledCleaner =
  dirtySet :: "'a set"
  scheduleId :: nat
  flushGuard :: bool

definition newCleaner :: "'a ScheduledCleaner" where
  "newCleaner = \<lparr>dirtySet = {}, scheduleId = 0, flushGuard = False\<rparr>"

text \<open>
  \<^verbatim>\<open>clean(items)\<close>: schedule \<^verbatim>\<open>dump\<close> when the dirty set is empty, then add the array.
\<close>

definition clean ::
  "'t \<Rightarrow> 'a \<Rightarrow> 'a ScheduledCleaner \<times> 't scheduler \<Rightarrow> 'a ScheduledCleaner \<times> 't scheduler" where
  "clean cb items = (\<lambda>(c, h).
     if dirtySet c = {}
     then (let (i, h') = schedule cb h
           in (c\<lparr>dirtySet := insert items (dirtySet c), scheduleId := i\<rparr>, h'))
     else (c\<lparr>dirtySet := insert items (dirtySet c)\<rparr>, h))"

text \<open>\<^verbatim>\<open>cancel()\<close>: unschedule the task when \<^verbatim>\<open>scheduleId\<close> is non-zero and reset it.\<close>

definition cancel ::
  "'a ScheduledCleaner \<times> 't scheduler \<Rightarrow> 'a ScheduledCleaner \<times> 't scheduler" where
  "cancel = (\<lambda>(c, h).
     if scheduleId c \<noteq> 0
     then (c\<lparr>scheduleId := 0\<rparr>, unschedule (scheduleId c) h)
     else (c, h))"

text \<open>
  \<^verbatim>\<open>dump()\<close>: lodash \<^verbatim>\<open>remove(items, shouldRemove)\<close> on every dirty array (it removes
  in place the elements for which the predicate holds and keeps the others in order),
  then \<^verbatim>\<open>dirtySet.clear()\<close>.
\<close>

definition dump ::
  "('v \<Rightarrow> bool) \<Rightarrow> 'a ScheduledCleaner \<Rightarrow> ('a \<Rightarrow> 'v list)
     \<Rightarrow> 'a ScheduledCleaner \<times> ('a \<Rightarrow> 'v list)" where
  "dump shouldRemove c arrays =
     (c\<lparr>dirtySet := {}\<rparr>,
      \<lambda>a. if a \<in> dirtySet c then filter (\<lambda>x. \<not> shouldRemove x) (arrays a) else arrays a)"

text \<open>\<^verbatim>\<open>flush()\<close> of the cleaner: guarded against re-entry, cancels, then dumps.\<close>

definition cleanerFlush ::
  "('v \<Rightarrow> bool) \<Rightarrow> 'a ScheduledCleaner \<times> 't scheduler \<times> ('a \<Rightarrow> 'v list)
     \<Rightarrow> 'a ScheduledCleaner \<times> 't scheduler \<times> ('a \<Rightarrow> 'v list)" where
  "cleanerFlush shouldRemove = (\<lambda>(c, h, arrays).
     if flushGuard c \<or> scheduleId c = 0 then (c, h, arrays)
     else (let (c1, h1) = cancel (c, h);
               (c2, arrays2) = dump shouldRemove (c1\<lparr>flushGuard := True\<rparr>) arrays
           in (c2\<lparr>flushGuard := False\<rparr>, h1, arrays2)))"

text \<open>
  A sequence of calls made on one cleaner instance, for the interleavings of
  \<^verbatim>\<open>clean\<close> and \<^verbatim>\<open>cancel\<close>.
\<close>

datatype 'a cleanerCall = Clean 'a | Cancel

fun cleanerCalls ::
  "'t \<Rightarrow> 'a cleanerCall list \<Rightarrow> 'a ScheduledCleaner \<times> 't scheduler
     \<Rightarrow> 'a ScheduledCleaner \<times> 't scheduler" where
  "cleanerCalls cb [] s = s"
| "cleanerCalls cb (Clean a # cs) s = cleanerCalls cb cs (clean cb a s)"
| "cleanerCalls cb (Cancel # cs) s = cleanerCalls cb cs (cancel s)"

definition newScheduler :: "'t scheduler" where
  "newScheduler = \<lparr>lastId = 0, pending = []\<rparr>"

section \<open>Signals (\<^verbatim>\<open>packages/signaling/src/Signal.ts\<close>)\<close>

text \<open>
  Senders, slots, contexts and exception handlers are JavaScript objects and functions,
  compared by identity (\<^verbatim>\<open>===\<close>); they are references of type \<open>ref\<close>. The value
  passed to \<^verbatim>\<open>emit\<close> is of type \<open>args\<close>, a thrown value is of type \<open>err\<close>.
\<close>

type_synonym ref = nat

type_synonym args = nat

type_synonym err = string

text \<open>
  A \<^verbatim>\<open>Signal\<close> object is created by its owner with \<^verbatim>\<open>new Signal(sender)\<close> and keeps
  the sender in a read-only field. Two signals are the same object exactly when they
  have the same sender and the same identifier.
\<close>

datatype signal = Signal (sender: ref) (ident: nat)

text \<open>
  \<^verbatim>\<open>IConnection\<close>: the \<^verbatim>\<open>signal\<close> field is set to \<^verbatim>\<open>null\<close> when the connection is
  cleared; \<^verbatim>\<open>slot\<close> and \<^verbatim>\<open>context\<close> are read-only. A context that was not given is
  \<^verbatim>\<open>undefined\<close>, here \<open>None\<close>; a context that is given is an object.
\<close>

record connection =
  signal :: "signal option"
  slot :: ref
  "context" :: "ref option"

text \<open>
  The arrays of connections are objects as well: the value stored in
  \<^verbatim>\<open>receiversForSender\<close> for a sender and the value stored in \<^verbatim>\<open>sendersForReceiver\<close>
  for a receiver. These identities are what \<^verbatim>\<open>scheduleCleanup\<close> hands to the cleaner.
\<close>

datatype arr = ReceiversOf ref | SendersOf ref

text \<open>
  The state of namespace \<^verbatim>\<open>Private\<close>. One connection object is pushed on two arrays, so
  the connections live in a store \<open>heap\<close> (an address is an index of the store) and
  the arrays hold addresses: clearing the \<^verbatim>\<open>signal\<close> field of one object is seen through
  both arrays. The two \<^verbatim>\<open>WeakMap\<close>s are partial maps. \<open>host\<close> is the host
  scheduler that the cleaner posts its task to.

  The exception handler is a function supplied by the user through
  \<^verbatim>\<open>setExceptionHandler\<close>. The variable holds its identity, and every call of it is
  recorded in \<open>caught\<close> with the handler called and the value passed.
\<close>

record registry =
  heap :: "connection list"
  receiversForSender :: "ref \<Rightarrow> nat list option"
  sendersForReceiver :: "ref \<Rightarrow> nat list option"
  connectionCleaner :: "arr ScheduledCleaner"
  host :: "unit scheduler"
  exceptionHandler :: ref
  caught :: "(ref \<times> err) list"

text \<open>
  The array found under a key, for the places where the source has already tested that
  the key is present; an absent key reads as the empty array.
\<close>

definition arrayOf :: "(ref \<Rightarrow> nat list option) \<Rightarrow> ref \<Rightarrow> nat list" where
  "arrayOf m k = (case m k of None \<Rightarrow> [] | Some cs \<Rightarrow> cs)"

text \<open>
  \<^verbatim>\<open>findConnection\<close>: the first connection of the array which has the given signal,
  slot and context.
\<close>

definition findConnection ::
  "connection list \<Rightarrow> nat list \<Rightarrow> signal \<Rightarrow> ref \<Rightarrow> ref option \<Rightarrow> nat option" where
  "findConnection h connections sig sl cx =
     find (\<lambda>c. signal (h ! c) = Some sig \<and> slot (h ! c) = sl \<and> context (h ! c) = cx) connections"

text \<open>
  \<^verbatim>\<open>scheduleCleanup(connections)\<close> is \<^verbatim>\<open>connectionCleaner.clean(connections)\<close>.
\<close>

definition scheduleCleanup :: "arr \<Rightarrow> registry \<Rightarrow> registry" where
  "scheduleCleanup a st =
     (let (c, h) = clean () a (connectionCleaner st, host st)
      in st\<lparr>connectionCleaner := c, host := h\<rparr>)"

text \<open>
  The receiver of a connection, \<^verbatim>\<open>thisArg || slot\<close>.
\<close>

definition receiverOf :: "ref \<Rightarrow> ref option \<Rightarrow> ref" where
  "receiverOf sl cx = (case cx of Some c \<Rightarrow> c | None \<Rightarrow> sl)"

text \<open>
  \<^verbatim>\<open>Private.connect\<close>. The receivers array of the sender is created first, also when
  the call then returns \<^verbatim>\<open>false\<close>.
\<close>

definition connect :: "signal \<Rightarrow> ref \<Rightarrow> ref option \<Rightarrow> registry \<Rightarrow> bool \<times> registry" where
  "connect sig sl cx st =
     (let st1 = (case receiversForSender st (sender sig) of
                   None \<Rightarrow> st\<lparr>receiversForSender := (receiversForSender st)(sender sig \<mapsto> [])\<rparr>
                 | Some receivers \<Rightarrow> st)
      in case findConnection (heap st1) (arrayOf (receiversForSender st1) (sender sig)) sig sl cx of
           Some c \<Rightarrow> (False, st1)
         | None \<Rightarrow>
            (let receiver = receiverOf sl cx;
                 st2 = (case sendersForReceiver st1 receiver of
                          None \<Rightarrow> st1\<lparr>sendersForReceiver := (sendersForReceiver st1)(receiver \<mapsto> [])\<rparr>
                        | Some senders \<Rightarrow> st1);
                 c = length (heap st2)
             in (True,
                 st2\<lparr>heap := heap st2 @ [\<lparr>signal = Some sig, slot = sl, context = cx\<rparr>],
                     receiversForSender := (receiversForSender st2)
                        (sender sig \<mapsto> arrayOf (receiversForSender st2) (sender sig) @ [c]),
                     sendersForReceiver := (sendersForReceiver st2)
                        (receiver \<mapsto> arrayOf (sendersForReceiver st2) receiver @ [c])\<rparr>)))"

text \<open>
  \<^verbatim>\<open>connection.signal = null\<close> on the object at address \<open>c\<close>.
\<close>

definition clear :: "nat \<Rightarrow> connection list \<Rightarrow> connection list" where
  "clear c h = h[c := (h ! c)\<lparr>signal := None\<rparr>]"

text \<open>
  \<^verbatim>\<open>Private.disconnect\<close>.
\<close>

definition disconnect :: "signal \<Rightarrow> ref \<Rightarrow> ref option \<Rightarrow> registry \<Rightarrow> bool \<times> registry" where
  "disconnect sig sl cx st =
     (case receiversForSender st (sender sig) of
        None \<Rightarrow> (False, st)
      | Some receivers \<Rightarrow>
          if receivers = [] then (False, st)
          else (case findConnection (heap st) receivers sig sl cx of
                  None \<Rightarrow> (False, st)
                | Some c \<Rightarrow>
                   (True,
                    scheduleCleanup (SendersOf (receiverOf sl cx))
                      (scheduleCleanup (ReceiversOf (sender sig))
                        (st\<lparr>heap := clear c (heap st)\<rparr>)))))"

text \<open>
  \<^verbatim>\<open>Private.disconnectBetween\<close>: the loop runs over the senders array of the receiver
  and clears the connections whose signal belongs to the sender; cleared entries are
  passed over.
\<close>

definition disconnectBetween :: "ref \<Rightarrow> ref \<Rightarrow> registry \<Rightarrow> registry" where
  "disconnectBetween sndr receiver st =
     (case receiversForSender st sndr of
        None \<Rightarrow> st
      | Some receivers \<Rightarrow>
          if receivers = [] then st
          else (case sendersForReceiver st receiver of
                  None \<Rightarrow> st
                | Some senders \<Rightarrow>
                    if senders = [] then st
                    else scheduleCleanup (SendersOf receiver)
                           (scheduleCleanup (ReceiversOf sndr)
                             (st\<lparr>heap := fold (\<lambda>c h. case signal (h ! c) of
                                                  None \<Rightarrow> h
                                                | Some sig \<Rightarrow> if sender sig = sndr then clear c h else h)
                                            senders (heap st)\<rparr>))))"

text \<open>
  \<^verbatim>\<open>Private.disconnectSender\<close>: every live connection of the receivers array is cleared
  and the senders array of its receiver is handed to the cleaner.
\<close>

definition disconnectSender :: "ref \<Rightarrow> registry \<Rightarrow> registry" where
  "disconnectSender sndr st =
     (case receiversForSender st sndr of
        None \<Rightarrow> st
      | Some receivers \<Rightarrow>
          if receivers = [] then st
          else scheduleCleanup (ReceiversOf sndr)
                 (fold (\<lambda>c s. case signal (heap s ! c) of
                                 None \<Rightarrow> s
                               | Some sig \<Rightarrow>
                                   scheduleCleanup
                                     (SendersOf (receiverOf (slot (heap s ! c)) (context (heap s ! c))))
                                     (s\<lparr>heap := clear c (heap s)\<rparr>))
                       receivers st))"

text \<open>
  \<^verbatim>\<open>Private.disconnectReceiver\<close>, the same loop over the senders array of the receiver.
\<close>

definition disconnectReceiver :: "ref \<Rightarrow> registry \<Rightarrow> registry" where
  "disconnectReceiver receiver st =
     (case sendersForReceiver st receiver of
        None \<Rightarrow> st
      | Some senders \<Rightarrow>
          if senders = [] then st
          else scheduleCleanup (SendersOf receiver)
                 (fold (\<lambda>c s. case signal (heap s ! c) of
                                 None \<Rightarrow> s
                               | Some sig \<Rightarrow>
                                   scheduleCleanup (ReceiversOf (sender sig))
                                     (s\<lparr>heap := clear c (heap s)\<rparr>))
                       senders st))"

text \<open>
  \<^verbatim>\<open>Private.disconnectAll\<close>: all the connections of the receivers array of the object
  are cleared, then all those of its senders array.
\<close>

definition disconnectAll :: "ref \<Rightarrow> registry \<Rightarrow> registry" where
  "disconnectAll obj st =
     (let st1 = (case receiversForSender st obj of
                   None \<Rightarrow> st
                 | Some receivers \<Rightarrow>
                     if receivers = [] then st
                     else scheduleCleanup (ReceiversOf obj)
                            (st\<lparr>heap := fold clear receivers (heap st)\<rparr>))
      in case sendersForReceiver st1 obj of
           None \<Rightarrow> st1
         | Some senders \<Rightarrow>
             if senders = [] then st1
             else scheduleCleanup (SendersOf obj)
                    (st1\<lparr>heap := fold clear senders (heap st1)\<rparr>))"

text \<open>
  \<^verbatim>\<open>Signal.setExceptionHandler\<close> returns the old handler.
\<close>

definition setExceptionHandler :: "ref \<Rightarrow> registry \<Rightarrow> ref \<times> registry" where
  "setExceptionHandler handler st = (exceptionHandler st, st\<lparr>exceptionHandler := handler\<rparr>)"

text \<open>
  Slots and exception handlers are code of the user. What the registry sees of such a
  function is the sequence of calls it makes on the public interface and whether it ends
  by throwing. It is therefore given as a script: a list of actions, chosen from the
  arguments of the function and the registry at the moment of the call. An action is a
  call of one of the functions above, a nested \<^verbatim>\<open>emit\<close>, or a \<^verbatim>\<open>throw\<close> that ends
  the function.
\<close>

datatype call =
    Connect signal ref "ref option"
  | Disconnect signal ref "ref option"
  | DisconnectBetween ref ref
  | DisconnectSender ref
  | DisconnectReceiver ref
  | DisconnectAll ref
  | SetExceptionHandler ref

datatype action = Call call | Emit signal args | Throw err

fun perform :: "call \<Rightarrow> registry \<Rightarrow> registry" where
  "perform (Connect sig sl cx) st = snd (connect sig sl cx st)"
| "perform (Disconnect sig sl cx) st = snd (disconnect sig sl cx st)"
| "perform (DisconnectBetween s r) st = disconnectBetween s r st"
| "perform (DisconnectSender s) st = disconnectSender s st"
| "perform (DisconnectReceiver r) st = disconnectReceiver r st"
| "perform (DisconnectAll obj) st = disconnectAll obj st"
| "perform (SetExceptionHandler h) st = snd (setExceptionHandler h st)"

text \<open>
  The scripts of the slots (slot, context, sender, emitted value, registry) and of the
  exception handlers (handler, value passed, registry). Nothing is assumed of an
  exception handler: like a slot it may call the public interface, emit and throw.
\<close>

record usercode =
  slotCode :: "ref \<Rightarrow> ref option \<Rightarrow> ref \<Rightarrow> args \<Rightarrow> registry \<Rightarrow> action list"
  handlerCode :: "ref \<Rightarrow> err \<Rightarrow> registry \<Rightarrow> action list"

text \<open>
  \<^verbatim>\<open>emit\<close> returns nothing. To state what one call of \<^verbatim>\<open>emit\<close> did, the functions
  below return, next to the registry, one record for each slot the call invoked itself:
  the index in the receivers array, the connection, the value thrown if the slot threw
  (with the registry at that moment), and the registry right after the invocation, when
  the exception handler has run. They also return the value that left the call, if one
  did.
\<close>

record dispatch =
  index :: nat
  conn :: nat
  thrown :: "(err \<times> registry) option"
  after :: registry

text \<open>
  \<^verbatim>\<open>Private.emit\<close> and \<^verbatim>\<open>invokeSlot\<close>, with \<open>run\<close> executing a script.
  \<^verbatim>\<open>receivers.forEach\<close> visits the indices below the length the array had when
  the call started and reads the element at each index when it gets there; this is
  \<open>forEachReceiver\<close> on \<open>[0..<length receivers]\<close>.

  \<^verbatim>\<open>invokeSlot\<close> calls the slot inside a \<^verbatim>\<open>try\<close> block and calls
  \<^verbatim>\<open>exceptionHandler(err)\<close> in the \<^verbatim>\<open>catch\<close> block, where nothing catches what the
  handler throws: \<open>handleException\<close> records the call and runs the script of the
  handler current at that moment, and a value thrown by it leaves \<^verbatim>\<open>invokeSlot\<close>,
  \<^verbatim>\<open>forEach\<close> and \<^verbatim>\<open>emit\<close>, so that the receivers that follow are not visited. The
  second component of the results is that value, \<open>None\<close> when the call returned. In
  a script, a value leaving a nested \<^verbatim>\<open>emit\<close> ends the script as a \<^verbatim>\<open>throw\<close> does.
  \<^verbatim>\<open>invokeSlot\<close> reads \<^verbatim>\<open>signal!.sender\<close> inside the \<^verbatim>\<open>try\<close> block, so a cleared
  connection gives a \<^verbatim>\<open>TypeError\<close> that is caught there.

  User code may emit, so the recursion is bounded by the first argument, the depth of
  nested slot invocations that is still allowed: \<open>invokeSlot\<close> takes one unit, and
  the result \<open>None\<close> says that the bound was reached.

  The task of the cleaner is run by the host on a later turn, and nothing in the module
  calls \<^verbatim>\<open>flush\<close> of the cleaner: no array is compacted while \<^verbatim>\<open>emit\<close> runs.
\<close>

function (sequential)
    run :: "nat \<Rightarrow> usercode \<Rightarrow> action list \<Rightarrow> registry \<Rightarrow> (err option \<times> registry) option"
and emit ::
  "nat \<Rightarrow> usercode \<Rightarrow> signal \<Rightarrow> args \<Rightarrow> registry
     \<Rightarrow> ((dispatch list \<times> err option) \<times> registry) option"
and forEachReceiver ::
  "nat \<Rightarrow> usercode \<Rightarrow> signal \<Rightarrow> args \<Rightarrow> nat list \<Rightarrow> registry
     \<Rightarrow> ((dispatch list \<times> err option) \<times> registry) option"
and invokeSlot ::
  "nat \<Rightarrow> usercode \<Rightarrow> nat \<Rightarrow> args \<Rightarrow> registry
     \<Rightarrow> (((err \<times> registry) option \<times> err option) \<times> registry) option"
and handleException ::
  "nat \<Rightarrow> usercode \<Rightarrow> err \<Rightarrow> registry \<Rightarrow> (err option \<times> registry) option"
where
  "run f env [] st = Some (None, st)"
| "run f env (Call c # as) st = run f env as (perform c st)"
| "run f env (Throw e # as) st = Some (Some e, st)"
| "run f env (Emit sig x # as) st =
     (case emit f env sig x st of
        None \<Rightarrow> None
      | Some ((ds, Some e), st') \<Rightarrow> Some (Some e, st')
      | Some ((ds, None), st') \<Rightarrow> run f env as st')"
| "emit f env sig x st =
     (case receiversForSender st (sender sig) of
        None \<Rightarrow> Some (([], None), st)
      | Some receivers \<Rightarrow>
          if receivers = [] then Some (([], None), st)
          else forEachReceiver f env sig x [0..<length receivers] st)"
| "forEachReceiver f env sig x [] st = Some (([], None), st)"
| "forEachReceiver f env sig x (k # ks) st =
     (let receivers = arrayOf (receiversForSender st) (sender sig)
      in if k < length receivers \<and> signal (heap st ! (receivers ! k)) = Some sig
         then (case invokeSlot f env (receivers ! k) x st of
                 None \<Rightarrow> None
               | Some ((t, Some e), st1) \<Rightarrow>
                   Some (([\<lparr>index = k, conn = receivers ! k, thrown = t, after = st1\<rparr>], Some e), st1)
               | Some ((t, None), st1) \<Rightarrow>
                   (case forEachReceiver f env sig x ks st1 of
                      None \<Rightarrow> None
                    | Some ((ds, r), st2) \<Rightarrow>
                        Some ((\<lparr>index = k, conn = receivers ! k, thrown = t, after = st1\<rparr> # ds, r),
                              st2)))
         else forEachReceiver f env sig x ks st)"
| "invokeSlot 0 env c x st = None"
| "invokeSlot (Suc f) env c x st =
     (case signal (heap st ! c) of
        None \<Rightarrow>
          (case handleException f env ''TypeError'' st of
             None \<Rightarrow> None
           | Some (r, st2) \<Rightarrow> Some ((Some (''TypeError'', st), r), st2))
      | Some sig \<Rightarrow>
          (case run f env (slotCode env (slot (heap st ! c)) (context (heap st ! c)) (sender sig) x st) st of
             None \<Rightarrow> None
           | Some (None, st1) \<Rightarrow> Some ((None, None), st1)
           | Some (Some e, st1) \<Rightarrow>
               (case handleException f env e st1 of
                  None \<Rightarrow> None
                | Some (r, st2) \<Rightarrow> Some ((Some (e, st1), r), st2))))"
| "handleException f env e st =
     (let st1 = st\<lparr>caught := caught st @ [(exceptionHandler st, e)]\<rparr>
      in run f env (handlerCode env (exceptionHandler st) e st1) st1)"
  by pat_completeness auto

termination
  apply (relation "inv_image (less_than <*lex*> less_than <*lex*> less_than)
    (\<lambda>x. case x of
        Inl (Inl (f, env, as, st)) \<Rightarrow> (f, 3::nat, length as)
      | Inl (Inr (f, env, sig, x, st)) \<Rightarrow> (f, 2, 0)
      | Inr (Inl (f, env, sig, x, ks, st)) \<Rightarrow> (f, 1, length ks)
      | Inr (Inr (Inl (f, env, c, x, st))) \<Rightarrow> (f, 0, 0)
      | Inr (Inr (Inr (f, env, e, st))) \<Rightarrow> (f, 4, 0))")
  apply auto
  done

subsection \<open>Invariants of the registry\<close>

text \<open>
  Every address held by an array is an address of the store.
\<close>

definition wellFormed :: "registry \<Rightarrow> bool" where
  "wellFormed st \<longleftrightarrow>
     (\<forall>s. \<forall>c \<in> set (arrayOf (receiversForSender st) s). c < length (heap st)) \<and>
     (\<forall>r. \<forall>c \<in> set (arrayOf (sendersForReceiver st) r). c < length (heap st))"

text \<open>
  How the store changes over time: objects are only added, slot and context never
  change, and a signal field either stays or becomes \<^verbatim>\<open>null\<close>.
\<close>

definition fades :: "connection list \<Rightarrow> connection list \<Rightarrow> bool" where
  "fades h h' \<longleftrightarrow>
     length h \<le> length h' \<and>
     (\<forall>c < length h. slot (h' ! c) = slot (h ! c) \<and> context (h' ! c) = context (h ! c) \<and>
        (signal (h' ! c) = signal (h ! c) \<or> signal (h' ! c) = None))"

text \<open>
  How an array changes while no cleanup task runs: addresses are only appended, and the
  appended ones are not lower than \<open>n\<close>.
\<close>

definition grown :: "nat \<Rightarrow> nat list \<Rightarrow> nat list \<Rightarrow> bool" where
  "grown n cs cs' \<longleftrightarrow> (\<exists>added. cs' = cs @ added \<and> (\<forall>c \<in> set added. n \<le> c))"

text \<open>
  The registry \<open>st'\<close> is reached from \<open>st\<close> by calls of the public interface.
\<close>

definition evolves :: "registry \<Rightarrow> registry \<Rightarrow> bool" where
  "evolves st st' \<longleftrightarrow>
     fades (heap st) (heap st') \<and>
     (\<forall>s. grown (length (heap st))
            (arrayOf (receiversForSender st) s) (arrayOf (receiversForSender st') s)) \<and>
     (\<forall>r. grown (length (heap st))
            (arrayOf (sendersForReceiver st) r) (arrayOf (sendersForReceiver st') r)) \<and>
     prefix (caught st) (caught st')"

text \<open>
  The two halves of \<^verbatim>\<open>disconnectAll\<close>.
\<close>

definition clearReceivers :: "ref \<Rightarrow> registry \<Rightarrow> registry" where
  "clearReceivers obj st =
     (case receiversForSender st obj of
        None \<Rightarrow> st
      | Some receivers \<Rightarrow>
          if receivers = [] then st
          else scheduleCleanup (ReceiversOf obj) (st\<lparr>heap := fold clear receivers (heap st)\<rparr>))"

definition clearSenders :: "ref \<Rightarrow> registry \<Rightarrow> registry" where
  "clearSenders obj st =
     (case sendersForReceiver st obj of
        None \<Rightarrow> st
      | Some senders \<Rightarrow>
          if senders = [] then st
          else scheduleCleanup (SendersOf obj) (st\<lparr>heap := fold clear senders (heap st)\<rparr>))"

text \<open>
  A result, if there is one, ends in a well-formed registry reached from \<open>st\<close>.
\<close>

definition keeps :: "registry \<Rightarrow> ('a \<times> registry) option \<Rightarrow> bool" where
  "keeps st res \<longleftrightarrow> (case res of None \<Rightarrow> True | Some (r, st') \<Rightarrow> wellFormed st' \<and> evolves st st')"

text \<open>
  The receivers array of the sender of a signal, and the test of \<^verbatim>\<open>emit\<close> at an index.
\<close>

definition receiversOf :: "registry \<Rightarrow> signal \<Rightarrow> nat list" where
  "receiversOf st sig = arrayOf (receiversForSender st) (sender sig)"

definition live :: "registry \<Rightarrow> signal \<Rightarrow> nat \<Rightarrow> bool" where
  "live st sig k \<longleftrightarrow>
     k < length (receiversOf st sig) \<and> signal (heap st ! (receiversOf st sig ! k)) = Some sig"

text \<open>
  Each connection dispatched later was still connected to the signal right after every
  earlier invocation of the same pass.
\<close>

fun laterLive :: "signal \<Rightarrow> dispatch list \<Rightarrow> bool" where
  "laterLive sig [] \<longleftrightarrow> True"
| "laterLive sig (d # ds) \<longleftrightarrow>
     (\<forall>d' \<in> set ds. signal (heap (after d) ! conn d') = Some sig) \<and> laterLive sig ds"

text \<open>
  A value thrown by a slot was passed to the exception handler current at that time, as
  the next value it received.
\<close>

definition routed :: "dispatch \<Rightarrow> bool" where
  "routed d \<longleftrightarrow>
     (\<forall>e s. thrown d = Some (e, s) \<longrightarrow>
        (\<exists>more. caught (after d) = caught s @ (exceptionHandler s, e) # more))"

text \<open>
  What a pass over the indices \<open>ks\<close> of the receivers array of \<open>st\<close> did. The
  pass is complete when no value left it; a value leaves it only after the last slot
  invoked has thrown.
\<close>

definition passOK ::
  "signal \<Rightarrow> registry \<Rightarrow> nat list \<Rightarrow> dispatch list \<Rightarrow> err option \<Rightarrow> registry \<Rightarrow> bool" where
  "passOK sig st ks ds r st' \<longleftrightarrow>
     subseq (map index ds) ks \<and>
     (\<forall>d \<in> set ds. conn d = receiversOf st sig ! index d \<and>
        signal (heap st ! conn d) = Some sig \<and> routed d \<and> evolves (after d) st') \<and>
     (r = None \<longrightarrow>
        (\<forall>k \<in> set ks. signal (heap st' ! (receiversOf st sig ! k)) = Some sig \<longrightarrow>
           k \<in> index ` set ds)) \<and>
     laterLive sig ds \<and>
     (r \<noteq> None \<longrightarrow> ds \<noteq> [] \<and> thrown (last ds) \<noteq> None)"

text \<open>
  Neither a slot nor an exception handler emits a signal.
\<close>

definition noEmit :: "usercode \<Rightarrow> bool" where
  "noEmit env \<longleftrightarrow>
     (\<forall>sl cx sndr x st. \<forall>a \<in> set (slotCode env sl cx sndr x st). \<forall>sig y. a \<noteq> Emit sig y) \<and>
     (\<forall>h e st. \<forall>a \<in> set (handlerCode env h e st). \<forall>sig y. a \<noteq> Emit sig y)"

text \<open>
  No exception handler throws.
\<close>

definition calm :: "usercode \<Rightarrow> bool" where
  "calm env \<longleftrightarrow> (\<forall>h e st. \<forall>a \<in> set (handlerCode env h e st). \<forall>e'. a \<noteq> Throw e')"

text \<open>
  A result, if there is one, is a normal return.
\<close>

definition completes :: "(err option \<times> registry) option \<Rightarrow> bool" where
  "completes res \<longleftrightarrow> (case res of None \<Rightarrow> True | Some (r, st') \<Rightarrow> r = None)"

definition contained :: "(('a \<times> err option) \<times> registry) option \<Rightarrow> bool" where
  "contained res \<longleftrightarrow> (case res of None \<Rightarrow> True | Some ((y, r), st') \<Rightarrow> r = None)"

text \<open>
  The invocations of a pass are made one after the other, each in the registry the one
  before has left. An invocation that a value thrown by the exception handler has left is
  the last one, and that value leaves the pass; no value leaves the pass otherwise.
\<close>

fun chained :: "nat \<Rightarrow> usercode \<Rightarrow> args \<Rightarrow> registry \<Rightarrow> dispatch list \<Rightarrow> err option \<Rightarrow> bool" where
  "chained f env x st [] r \<longleftrightarrow> r = None"
| "chained f env x st (d # ds) r \<longleftrightarrow>
     (\<exists>rr. invokeSlot f env (conn d) x st = Some ((thrown d, rr), after d) \<and>
        (if rr = None then chained f env x (after d) ds r else ds = [] \<and> r = rr))"

text \<open>
  The live connections of the sender that have the given signal, slot and context.
\<close>

definition matching :: "registry \<Rightarrow> signal \<Rightarrow> ref \<Rightarrow> ref option \<Rightarrow> nat list" where
  "matching st sig sl cx =
     filter (\<lambda>c. signal (heap st ! c) = Some sig \<and> slot (heap st ! c) = sl \<and>
                  context (heap st ! c) = cx) (receiversOf st sig)"

subsection \<open>Scenarios of \<^verbatim>\<open>packages/signaling/test/index.spec.ts\<close>\<close>

text \<open>
  The registry before any call, and the slots of the tests of \<^verbatim>\<open>emit\<close>: slot 10 counts,
  slot 11 throws (\<^verbatim>\<open>onThrow\<close>), slot 12 connects slot 10 with a new context on the same
  signal, slot 13 disconnects the connection of slot 10 with context 3. The exception
  handlers of the tests only record the value.
\<close>

definition newRegistry :: registry where
  "newRegistry = \<lparr>heap = [], receiversForSender = Map.empty, sendersForReceiver = Map.empty,
     connectionCleaner = newCleaner, host = newScheduler, exceptionHandler = 0, caught = []\<rparr>"

definition three :: signal where "three = Signal 100 3"

definition testCode :: usercode where
  "testCode = \<lparr>
     slotCode = (\<lambda>sl cx sndr x st.
       if sl = 11 then [Throw ''Error'']
       else if sl = 12 then [Call (Connect three 10 (Some 3))]
       else if sl = 13 then [Call (Disconnect three 10 (Some 3))]
       else []),
     handlerCode = (\<lambda>h e st. [])\<rparr>"

text \<open>
  The same slots, with an exception handler 66 that throws in turn.
\<close>

definition rethrowCode :: usercode where
  "rethrowCode = testCode\<lparr>handlerCode := (\<lambda>h e st. if h = 66 then [Throw ''again''] else [])\<rparr>"

text \<open>
  A sequence of \<^verbatim>\<open>connect\<close> calls.
\<close>

definition connects :: "(signal \<times> ref \<times> ref option) list \<Rightarrow> registry \<Rightarrow> registry" where
  "connects cs st = fold (\<lambda>(sig, sl, cx) s. snd (connect sig sl cx s)) cs st"

definition throwing :: registry where
  "throwing = connects [(three, 10, Some 1), (three, 11, Some 2), (three, 10, Some 3)] newRegistry"

definition adding :: registry where
  "adding = connects [(three, 10, Some 1), (three, 10, Some 2), (three, 12, Some 4)] newRegistry"

definition removing :: registry where
  "removing = connects [(three, 10, Some 1), (three, 10, Some 2), (three, 13, Some 5), (three, 10, Some 3)] newRegistry"

text \<open>
  The registry of the test of a throwing slot, after \<^verbatim>\<open>setExceptionHandler\<close> has
  installed handler 66.
\<close>

definition rethrowing :: registry where
  "rethrowing = snd (setExceptionHandler 66 throwing)"

text \<open>
  The connections invoked by a call of \<^verbatim>\<open>emit\<close>, in order, and the value that left it.
\<close>

definition dispatched ::
  "((dispatch list \<times> err option) \<times> registry) option \<Rightarrow> (nat list \<times> err option) option" where
  "dispatched res = map_option (\<lambda>((ds, r), st). (map conn ds, r)) res"

section \<open>The message loop (\<^verbatim>\<open>packages/messaging/src/MessageLoop.ts\<close>)\<close>

text \<open>
  Modelled from the spec: \<^verbatim>\<open>Message.ts\<close> is not among the sources. Section 3 of the
  specification gives a message a \<^verbatim>\<open>type\<close> string, an \<^verbatim>\<open>isConflatable\<close> flag and a
  \<^verbatim>\<open>conflate(other)\<close> operation that returns a boolean. The state a message subclass
  may carry, and that \<^verbatim>\<open>conflate\<close> may change, is the field \<open>payload\<close>.
\<close>

record message =
  type :: string
  isConflatable :: bool
  payload :: nat

text \<open>
  \<^verbatim>\<open>PostedMessage\<close>: both fields are set to \<^verbatim>\<open>null\<close> by \<^verbatim>\<open>clearData\<close>. The
  sentinel of a drain is compared by identity (\<^verbatim>\<open>posted === sentinel\<close>), so every entry
  pushed on the queue gets an identifier \<open>pid\<close> of its own.
\<close>

record posted =
  pid :: nat
  handler :: "ref option"
  msg :: "message option"

text \<open>
  The callbacks the module gives to the host scheduler: \<^verbatim>\<open>runMessageLoop\<close> and the
  \<^verbatim>\<open>dump\<close> of the hook cleaner.
\<close>

datatype task = RunMessageLoop | DumpHooks

text \<open>
  The calls of user code, in the order they are made: a hook (hook, handler, message),
  \<^verbatim>\<open>processMessage\<close> of a handler, and the exception handler.
\<close>

datatype event = HookCall ref ref message | HandlerCall ref message | ErrorCall ref err

text \<open>
  The state of the module. The arrays of hooks are reached only through
  \<^verbatim>\<open>messageHooks\<close>, so they are stored there. \<open>nextPid\<close> is the identifier of the
  next queue entry to be created. \<open>trace\<close> records the calls of user code.
  The exception handler is a function supplied by the user; the variable holds its
  identity.
\<close>

record loop =
  messageQueue :: "posted list"
  messageHooks :: "ref \<Rightarrow> ref option list option"
  loopTaskID :: nat
  loopFlushGuard :: bool
  hookCleaner :: "ref ScheduledCleaner"
  loopHost :: "task scheduler"
  loopExceptionHandler :: ref
  nextPid :: nat
  trace :: "event list"

text \<open>
  \<^verbatim>\<open>enqueueMessage\<close>.
\<close>

definition enqueueMessage :: "ref \<Rightarrow> message \<Rightarrow> loop \<Rightarrow> loop" where
  "enqueueMessage h m st =
     (let st1 = st\<lparr>messageQueue := messageQueue st @ [\<lparr>pid = nextPid st, handler = Some h, msg = Some m\<rparr>],
                    nextPid := Suc (nextPid st)\<rparr>
      in if loopTaskID st1 \<noteq> 0 then st1
         else (let (i, hst) = schedule RunMessageLoop (loopHost st1)
               in st1\<lparr>loopTaskID := i, loopHost := hst\<rparr>))"

text \<open>
  The four tests of \<^verbatim>\<open>postMessage\<close> that come before \<^verbatim>\<open>posted.msg.conflate(msg)\<close>.
\<close>

definition candidate :: "ref \<Rightarrow> message \<Rightarrow> posted \<Rightarrow> bool" where
  "candidate h m p \<longleftrightarrow>
     handler p = Some h \<and>
     (case msg p of None \<Rightarrow> False | Some pm \<Rightarrow> type pm = type m \<and> isConflatable pm)"

text \<open>
  \<^verbatim>\<open>messageQueue.some(...)\<close>: front to back, stopping at the first entry for which the
  callback returns \<^verbatim>\<open>true\<close>. \<^verbatim>\<open>conflate\<close> is a method of the queued message; it
  returns the boolean and the queued message as it is after the call.
\<close>

fun conflateScan ::
  "(message \<Rightarrow> message \<Rightarrow> bool \<times> message) \<Rightarrow> ref \<Rightarrow> message \<Rightarrow> posted list \<Rightarrow> bool \<times> posted list" where
  "conflateScan cf h m [] = (False, [])"
| "conflateScan cf h m (p # ps) =
     (if handler p \<noteq> Some h then (let (b, ps') = conflateScan cf h m ps in (b, p # ps'))
      else case msg p of
             None \<Rightarrow> (let (b, ps') = conflateScan cf h m ps in (b, p # ps'))
           | Some pm \<Rightarrow>
               if type pm \<noteq> type m then (let (b, ps') = conflateScan cf h m ps in (b, p # ps'))
               else if \<not> isConflatable pm then (let (b, ps') = conflateScan cf h m ps in (b, p # ps'))
               else (let (r, pm') = cf pm m
                     in if r then (True, p\<lparr>msg := Some pm'\<rparr> # ps)
                        else (let (b, ps') = conflateScan cf h m ps
                              in (b, p\<lparr>msg := Some pm'\<rparr> # ps'))))"

text \<open>
  \<^verbatim>\<open>postMessage\<close>.
\<close>

definition postMessage ::
  "(message \<Rightarrow> message \<Rightarrow> bool \<times> message) \<Rightarrow> ref \<Rightarrow> message \<Rightarrow> loop \<Rightarrow> loop" where
  "postMessage cf h m st =
     (if \<not> isConflatable m then enqueueMessage h m st
      else (let (conflated, q) = conflateScan cf h m (messageQueue st);
                st1 = st\<lparr>messageQueue := q\<rparr>
            in if \<not> conflated then enqueueMessage h m st1 else st1))"

text \<open>
  \<^verbatim>\<open>Array.prototype.indexOf\<close>, with \<open>None\<close> for \<^verbatim>\<open>-1\<close>.
\<close>

fun indexOf :: "'a list \<Rightarrow> 'a \<Rightarrow> nat option" where
  "indexOf [] x = None"
| "indexOf (y # ys) x = (if y = x then Some 0 else map_option Suc (indexOf ys x))"

text \<open>
  \<^verbatim>\<open>installMessageHook\<close>.
\<close>

definition installMessageHook :: "ref \<Rightarrow> ref \<Rightarrow> loop \<Rightarrow> loop" where
  "installMessageHook h hook st =
     (case messageHooks st h of
        None \<Rightarrow> st\<lparr>messageHooks := (messageHooks st)(h \<mapsto> [Some hook])\<rparr>
      | Some hooks \<Rightarrow>
          if indexOf hooks (Some hook) \<noteq> None then st
          else st\<lparr>messageHooks := (messageHooks st)(h \<mapsto> hooks @ [Some hook])\<rparr>)"

text \<open>
  \<^verbatim>\<open>hookCleaner.clean(hooks)\<close>; the array is named by its handler.
\<close>

definition cleanHooks :: "ref \<Rightarrow> loop \<Rightarrow> loop" where
  "cleanHooks h st =
     (let (c, hst) = clean DumpHooks h (hookCleaner st, loopHost st)
      in st\<lparr>hookCleaner := c, loopHost := hst\<rparr>)"

text \<open>
  \<^verbatim>\<open>removeMessageHook\<close>: the entry is set to \<^verbatim>\<open>null\<close>, the array keeps its length.
\<close>

definition removeMessageHook :: "ref \<Rightarrow> ref \<Rightarrow> loop \<Rightarrow> loop" where
  "removeMessageHook h hook st =
     (case messageHooks st h of
        None \<Rightarrow> st
      | Some hooks \<Rightarrow>
          (case indexOf hooks (Some hook) of
             None \<Rightarrow> st
           | Some i \<Rightarrow> cleanHooks h (st\<lparr>messageHooks := (messageHooks st)(h \<mapsto> hooks[i := None])\<rparr>)))"

text \<open>
  \<^verbatim>\<open>clearData\<close>.
\<close>

definition clearData :: "ref \<Rightarrow> loop \<Rightarrow> loop" where
  "clearData h st =
     (let st1 = (case messageHooks st h of
                   None \<Rightarrow> st
                 | Some hooks \<Rightarrow>
                     if hooks = [] then st
                     else cleanHooks h
                            (st\<lparr>messageHooks := (messageHooks st)(h \<mapsto> map (\<lambda>k. None) hooks)\<rparr>))
      in st1\<lparr>messageQueue :=
               map (\<lambda>p. if handler p = Some h then p\<lparr>handler := None, msg := None\<rparr> else p)
                 (messageQueue st1)\<rparr>)"

text \<open>
  \<^verbatim>\<open>MessageLoop.setExceptionHandler\<close>.
\<close>

definition setLoopExceptionHandler :: "ref \<Rightarrow> loop \<Rightarrow> ref \<times> loop" where
  "setLoopExceptionHandler eh st = (loopExceptionHandler st, st\<lparr>loopExceptionHandler := eh\<rparr>)"

text \<open>
  Handlers, hooks and exception handlers are code of the user, given as scripts as the
  slots are: the calls they make on the public interface (\<^verbatim>\<open>sendMessage\<close> and
  \<^verbatim>\<open>flush\<close> run user code in turn), ending with \<^verbatim>\<open>Raise\<close> when they throw. A hook
  also returns a boolean. \<open>onError\<close> is the script of an exception handler (handler,
  value passed, state); nothing is assumed of it. \<^verbatim>\<open>conflate\<close> of the messages is the
  last callback.
\<close>

datatype lcall =
    PostMessage ref message
  | InstallMessageHook ref ref
  | RemoveMessageHook ref ref
  | ClearData ref
  | SetLoopExceptionHandler ref

datatype laction = Do lcall | SendMessage ref message | Flush | Raise err

record callbacks =
  processMessage :: "ref \<Rightarrow> message \<Rightarrow> loop \<Rightarrow> laction list"
  messageHook :: "ref \<Rightarrow> ref \<Rightarrow> message \<Rightarrow> loop \<Rightarrow> laction list \<times> bool"
  onError :: "ref \<Rightarrow> err \<Rightarrow> loop \<Rightarrow> laction list"
  conflate :: "message \<Rightarrow> message \<Rightarrow> bool \<times> message"

fun performL :: "(message \<Rightarrow> message \<Rightarrow> bool \<times> message) \<Rightarrow> lcall \<Rightarrow> loop \<Rightarrow> loop" where
  "performL cf (PostMessage h m) st = postMessage cf h m st"
| "performL cf (InstallMessageHook h k) st = installMessageHook h k st"
| "performL cf (RemoveMessageHook h k) st = removeMessageHook h k st"
| "performL cf (ClearData h) st = clearData h st"
| "performL cf (SetLoopExceptionHandler eh) st = snd (setLoopExceptionHandler eh st)"

text \<open>
  What a hook did, and the value \<^verbatim>\<open>invokeHook\<close> returns for it when it returns: a hook
  that throws leaves \<^verbatim>\<open>result\<close> at \<^verbatim>\<open>true\<close>.
\<close>

datatype hookResult = Returned bool | Threw err

fun passes :: "hookResult \<Rightarrow> bool" where
  "passes (Returned b) = b"
| "passes (Threw e) = True"

text \<open>
  What one call of \<^verbatim>\<open>sendMessage\<close> did itself: the hooks it invoked with their results,
  and, if it called \<^verbatim>\<open>processMessage\<close>, whether that threw.
\<close>

record sent =
  hooksRun :: "(ref \<times> hookResult) list"
  handled :: "err option option"

text \<open>
  What one round of the loop of \<^verbatim>\<open>runMessageLoop\<close> did: the entry it removed and the
  delivery it made, if any.
\<close>

record popped =
  entry :: posted
  delivery :: "sent option"

text \<open>
  \<^verbatim>\<open>posted.handler && posted.msg\<close>.
\<close>

definition target :: "posted \<Rightarrow> (ref \<times> message) option" where
  "target p =
     (case handler p of
        None \<Rightarrow> None
      | Some h \<Rightarrow> (case msg p of None \<Rightarrow> None | Some m \<Rightarrow> Some (h, m)))"

text \<open>
  \<^verbatim>\<open>sendMessage\<close>, \<^verbatim>\<open>invokeHook\<close>, \<^verbatim>\<open>invokeHandler\<close>, \<^verbatim>\<open>flush\<close> and
  \<^verbatim>\<open>runMessageLoop\<close>, with \<open>runL\<close> executing a script. \<^verbatim>\<open>[...hooks].reverse()\<close>
  copies the array before the first hook runs, so \<open>everyHook\<close> goes through the
  reversed list it was given.

  \<^verbatim>\<open>invokeHook\<close> and \<^verbatim>\<open>invokeHandler\<close> call user code inside a \<^verbatim>\<open>try\<close> block and
  call \<^verbatim>\<open>exceptionHandler(err)\<close> in the \<^verbatim>\<open>catch\<close> block, where nothing catches what
  the handler throws: \<open>handleLoopException\<close> records the call and runs the script of
  the handler current at that moment, and a value thrown by it leaves \<^verbatim>\<open>invokeHook\<close>
  or \<^verbatim>\<open>invokeHandler\<close>, then \<^verbatim>\<open>sendMessage\<close>, and the loop of \<^verbatim>\<open>runMessageLoop\<close>
  if the message was being delivered from the queue. The last component of the results
  is that value, \<open>None\<close> when the call returned. In a script, a value leaving a
  nested call ends the script as a \<^verbatim>\<open>throw\<close> does.

  \<open>drain\<close> is the \<^verbatim>\<open>while (true)\<close> loop; \<^verbatim>\<open>messageQueue.shift()\<close> on an empty
  queue gives \<^verbatim>\<open>undefined\<close> and the next statement reads a property of it, a
  \<^verbatim>\<open>TypeError\<close> that leaves \<^verbatim>\<open>runMessageLoop\<close>; \<^verbatim>\<open>flush\<close> has no \<^verbatim>\<open>finally\<close>,
  so the guard stays set when a value leaves the loop.

  The first argument bounds the depth of calls of user code and the number of rounds of
  the loop; the result \<open>None\<close> says that the bound was reached.
\<close>

function (sequential)
    runL :: "nat \<Rightarrow> callbacks \<Rightarrow> laction list \<Rightarrow> loop \<Rightarrow> (err option \<times> loop) option"
and sendMessage ::
  "nat \<Rightarrow> callbacks \<Rightarrow> ref \<Rightarrow> message \<Rightarrow> loop \<Rightarrow> ((sent \<times> err option) \<times> loop) option"
and everyHook ::
  "nat \<Rightarrow> callbacks \<Rightarrow> ref \<Rightarrow> message \<Rightarrow> ref option list \<Rightarrow> loop
     \<Rightarrow> ((((ref \<times> hookResult) list \<times> bool) \<times> err option) \<times> loop) option"
and invokeHook ::
  "nat \<Rightarrow> callbacks \<Rightarrow> ref \<Rightarrow> ref \<Rightarrow> message \<Rightarrow> loop
     \<Rightarrow> ((hookResult \<times> err option) \<times> loop) option"
and invokeHandler ::
  "nat \<Rightarrow> callbacks \<Rightarrow> ref \<Rightarrow> message \<Rightarrow> loop \<Rightarrow> ((err option \<times> err option) \<times> loop) option"
and handleLoopException ::
  "nat \<Rightarrow> callbacks \<Rightarrow> err \<Rightarrow> loop \<Rightarrow> (err option \<times> loop) option"
and flush :: "nat \<Rightarrow> callbacks \<Rightarrow> loop \<Rightarrow> (err option \<times> loop) option"
and runMessageLoop ::
  "nat \<Rightarrow> callbacks \<Rightarrow> loop \<Rightarrow> ((popped list \<times> err option) \<times> loop) option"
and drain ::
  "nat \<Rightarrow> callbacks \<Rightarrow> nat \<Rightarrow> loop \<Rightarrow> ((popped list \<times> err option) \<times> loop) option"
where
  "runL f env [] st = Some (None, st)"
| "runL f env (Do c # as) st = runL f env as (performL (conflate env) c st)"
| "runL f env (Raise e # as) st = Some (Some e, st)"
| "runL f env (SendMessage h m # as) st =
     (case sendMessage f env h m st of
        None \<Rightarrow> None
      | Some ((obs, Some e), st1) \<Rightarrow> Some (Some e, st1)
      | Some ((obs, None), st1) \<Rightarrow> runL f env as st1)"
| "runL f env (Flush # as) st =
     (case flush f env st of
        None \<Rightarrow> None
      | Some (Some e, st1) \<Rightarrow> Some (Some e, st1)
      | Some (None, st1) \<Rightarrow> runL f env as st1)"
| "sendMessage f env h m st =
     (case messageHooks st h of
        None \<Rightarrow>
          (case invokeHandler f env h m st of
             None \<Rightarrow> None
           | Some ((t, r), st1) \<Rightarrow> Some ((\<lparr>hooksRun = [], handled = Some t\<rparr>, r), st1))
      | Some hooks \<Rightarrow>
          if hooks = [] then
            (case invokeHandler f env h m st of
               None \<Rightarrow> None
             | Some ((t, r), st1) \<Rightarrow> Some ((\<lparr>hooksRun = [], handled = Some t\<rparr>, r), st1))
          else
            (case everyHook f env h m (rev hooks) st of
               None \<Rightarrow> None
             | Some (((rs, passed), Some e), st1) \<Rightarrow>
                 Some ((\<lparr>hooksRun = rs, handled = None\<rparr>, Some e), st1)
             | Some (((rs, passed), None), st1) \<Rightarrow>
                 if passed then
                   (case invokeHandler f env h m st1 of
                      None \<Rightarrow> None
                    | Some ((t, r), st2) \<Rightarrow> Some ((\<lparr>hooksRun = rs, handled = Some t\<rparr>, r), st2))
                 else Some ((\<lparr>hooksRun = rs, handled = None\<rparr>, None), st1)))"
| "everyHook f env h m [] st = Some ((([], True), None), st)"
| "everyHook f env h m (None # hooks) st = everyHook f env h m hooks st"
| "everyHook f env h m (Some hook # hooks) st =
     (case invokeHook f env hook h m st of
        None \<Rightarrow> None
      | Some ((res, Some e), st1) \<Rightarrow> Some ((([(hook, res)], False), Some e), st1)
      | Some ((res, None), st1) \<Rightarrow>
          if passes res then
            (case everyHook f env h m hooks st1 of
               None \<Rightarrow> None
             | Some (((rs, passed), r), st2) \<Rightarrow> Some ((((hook, res) # rs, passed), r), st2))
          else Some ((([(hook, res)], False), None), st1))"
| "invokeHook 0 env hook h m st = None"
| "invokeHook (Suc f) env hook h m st =
     (let st0 = st\<lparr>trace := trace st @ [HookCall hook h m]\<rparr>
      in case runL f env (fst (messageHook env hook h m st0)) st0 of
           None \<Rightarrow> None
         | Some (None, st1) \<Rightarrow> Some ((Returned (snd (messageHook env hook h m st0)), None), st1)
         | Some (Some e, st1) \<Rightarrow>
             (case handleLoopException f env e st1 of
                None \<Rightarrow> None
              | Some (r, st2) \<Rightarrow> Some ((Threw e, r), st2)))"
| "invokeHandler 0 env h m st = None"
| "invokeHandler (Suc f) env h m st =
     (let st0 = st\<lparr>trace := trace st @ [HandlerCall h m]\<rparr>
      in case runL f env (processMessage env h m st0) st0 of
           None \<Rightarrow> None
         | Some (None, st1) \<Rightarrow> Some ((None, None), st1)
         | Some (Some e, st1) \<Rightarrow>
             (case handleLoopException f env e st1 of
                None \<Rightarrow> None
              | Some (r, st2) \<Rightarrow> Some ((Some e, r), st2)))"
| "handleLoopException f env e st =
     (let st1 = st\<lparr>trace := trace st @ [ErrorCall (loopExceptionHandler st) e]\<rparr>
      in runL f env (onError env (loopExceptionHandler st) e st1) st1)"
| "flush f env st =
     (if loopFlushGuard st \<or> loopTaskID st = 0 then Some (None, st)
      else (case runMessageLoop f env
                   (st\<lparr>loopHost := unschedule (loopTaskID st) (loopHost st),
                       loopFlushGuard := True\<rparr>) of
              None \<Rightarrow> None
            | Some ((ps, Some e), st1) \<Rightarrow> Some (Some e, st1)
            | Some ((ps, None), st1) \<Rightarrow> Some (None, st1\<lparr>loopFlushGuard := False\<rparr>)))"
| "runMessageLoop f env st =
     (let st1 = st\<lparr>loopTaskID := 0\<rparr>
      in if messageQueue st1 = [] then Some (([], None), st1)
         else drain f env (nextPid st1)
                (st1\<lparr>messageQueue := messageQueue st1 @ [\<lparr>pid = nextPid st1, handler = None, msg = None\<rparr>],
                     nextPid := Suc (nextPid st1)\<rparr>))"
| "drain 0 env sentinel st = None"
| "drain (Suc f) env sentinel st =
     (case messageQueue st of
        [] \<Rightarrow> Some (([], Some ''TypeError''), st)
      | p # q \<Rightarrow>
          if pid p = sentinel then Some (([], None), st\<lparr>messageQueue := q\<rparr>)
          else (case target p of
                  None \<Rightarrow>
                    (case drain f env sentinel (st\<lparr>messageQueue := q\<rparr>) of
                       None \<Rightarrow> None
                     | Some ((ps, r), st2) \<Rightarrow>
                         Some ((\<lparr>entry = p, delivery = None\<rparr> # ps, r), st2))
                | Some (h, m) \<Rightarrow>
                    (case sendMessage f env h m (st\<lparr>messageQueue := q\<rparr>) of
                       None \<Rightarrow> None
                     | Some ((obs, Some e), st1) \<Rightarrow>
                         Some (([\<lparr>entry = p, delivery = Some obs\<rparr>], Some e), st1)
                     | Some ((obs, None), st1) \<Rightarrow>
                         (case drain f env sentinel st1 of
                            None \<Rightarrow> None
                          | Some ((ps, r), st2) \<Rightarrow>
                              Some ((\<lparr>entry = p, delivery = Some obs\<rparr> # ps, r), st2)))))"
  by pat_completeness auto

termination
  apply (relation "inv_image (less_than <*lex*> less_than <*lex*> less_than)
    (\<lambda>x. case x of
        Inl (Inl (Inl (f, env, as, st))) \<Rightarrow> (f, 7::nat, length as)
      | Inl (Inl (Inr (f, env, h, m, st))) \<Rightarrow> (f, 3, 0)
      | Inl (Inr (Inl (f, env, h, m, hs, st))) \<Rightarrow> (f, 2, length hs)
      | Inl (Inr (Inr (f, env, k, h, m, st))) \<Rightarrow> (f, 1, 0)
      | Inr (Inl (Inl (f, env, h, m, st))) \<Rightarrow> (f, 1, 0)
      | Inr (Inl (Inr (f, env, e, st))) \<Rightarrow> (f, 8, 0)
      | Inr (Inr (Inl (f, env, st))) \<Rightarrow> (f, 6, 0)
      | Inr (Inr (Inr (Inl (f, env, st)))) \<Rightarrow> (f, 5, 0)
      | Inr (Inr (Inr (Inr (f, env, s, st)))) \<Rightarrow> (f, 4, 0))")
  apply auto
  done

subsection \<open>Auxiliary notions\<close>

text \<open>
  An entry takes the message in: it is a candidate and its \<^verbatim>\<open>conflate\<close> returns
  \<^verbatim>\<open>true\<close>. \<open>consult\<close> is what the scan does to an entry it passes:
  \<^verbatim>\<open>conflate\<close> has been called on a candidate.
\<close>

definition accepts ::
  "(message \<Rightarrow> message \<Rightarrow> bool \<times> message) \<Rightarrow> ref \<Rightarrow> message \<Rightarrow> posted \<Rightarrow> bool" where
  "accepts cf h m p \<longleftrightarrow>
     candidate h m p \<and> (case msg p of None \<Rightarrow> False | Some pm \<Rightarrow> fst (cf pm m))"

definition consult ::
  "(message \<Rightarrow> message \<Rightarrow> bool \<times> message) \<Rightarrow> ref \<Rightarrow> message \<Rightarrow> posted \<Rightarrow> posted" where
  "consult cf h m p =
     (if candidate h m p
      then (case msg p of None \<Rightarrow> p | Some pm \<Rightarrow> p\<lparr>msg := Some (snd (cf pm m))\<rparr>)
      else p)"

text \<open>
  The array of hooks of a handler, and the hooks of an array which are not \<^verbatim>\<open>null\<close>.
\<close>

definition hooksOf :: "loop \<Rightarrow> ref \<Rightarrow> ref option list" where
  "hooksOf st h = (case messageHooks st h of None \<Rightarrow> [] | Some hooks \<Rightarrow> hooks)"

fun installed :: "ref option list \<Rightarrow> ref list" where
  "installed [] = []"
| "installed (None # hooks) = installed hooks"
| "installed (Some k # hooks) = k # installed hooks"

text \<open>
  The hooks run are an initial part of the chain \<open>ks\<close>; all but the last passed; the
  chain passed when all of \<open>ks\<close> ran and passed; it failed when the last one run
  returned \<^verbatim>\<open>false\<close>; and a value left it only after the last one run had thrown.
\<close>

definition chainOK :: "ref list \<Rightarrow> (ref \<times> hookResult) list \<Rightarrow> bool \<Rightarrow> err option \<Rightarrow> bool" where
  "chainOK ks rs passed r \<longleftrightarrow>
     (\<exists>n. map fst rs = take n ks) \<and>
     (\<forall>i. Suc i < length rs \<longrightarrow> passes (snd (rs ! i))) \<and>
     (passed \<longrightarrow> r = None \<and> map fst rs = ks \<and> (\<forall>x \<in> set rs. passes (snd x))) \<and>
     (\<not> passed \<longrightarrow> rs \<noteq> [] \<and>
        (r = None \<longrightarrow> snd (last rs) = Returned False) \<and>
        (r \<noteq> None \<longrightarrow> (\<exists>e. snd (last rs) = Threw e)))"

text \<open>
  A result, if there is one, has only added to the record of calls.
\<close>

definition logs :: "loop \<Rightarrow> ('a \<times> loop) option \<Rightarrow> bool" where
  "logs st res \<longleftrightarrow> (case res of None \<Rightarrow> True | Some (y, st') \<Rightarrow> prefix (trace st) (trace st'))"

text \<open>
  Handlers, hooks and exception handlers only call functions that run no user code, or
  throw.
\<close>

definition quiet :: "callbacks \<Rightarrow> bool" where
  "quiet env \<longleftrightarrow>
     (\<forall>h m st. \<forall>a \<in> set (processMessage env h m st). (\<exists>c. a = Do c) \<or> (\<exists>e. a = Raise e)) \<and>
     (\<forall>k h m st. \<forall>a \<in> set (fst (messageHook env k h m st)). (\<exists>c. a = Do c) \<or> (\<exists>e. a = Raise e)) \<and>
     (\<forall>h e st. \<forall>a \<in> set (onError env h e st). (\<exists>c. a = Do c) \<or> (\<exists>e. a = Raise e))"

text \<open>
  Exception handlers only call functions that run no user code, and do not throw.
\<close>

definition calmLoop :: "callbacks \<Rightarrow> bool" where
  "calmLoop env \<longleftrightarrow> (\<forall>h e st. \<forall>a \<in> set (onError env h e st). \<exists>c. a = Do c)"

text \<open>
  The hooks of a chain are invoked one after the other, each in the state the one before
  has left. The chain goes on after a hook that returned \<^verbatim>\<open>true\<close>, and after a hook
  that threw when the exception handler has returned. It ends with a hook that returned
  \<^verbatim>\<open>false\<close>, and with a hook whose invocation the exception handler has left by
  throwing; that value leaves the chain.
\<close>

fun hooksFrom ::
  "nat \<Rightarrow> callbacks \<Rightarrow> ref \<Rightarrow> message \<Rightarrow> loop \<Rightarrow> (ref \<times> hookResult) list \<Rightarrow> err option \<Rightarrow> loop
     \<Rightarrow> bool" where
  "hooksFrom f env h m st [] r st' \<longleftrightarrow> r = None \<and> st' = st"
| "hooksFrom f env h m st ((k, res) # rs) r st' \<longleftrightarrow>
     (\<exists>rr st1. invokeHook f env k h m st = Some ((res, rr), st1) \<and>
        (if rr = None \<and> passes res then hooksFrom f env h m st1 rs r st'
         else rs = [] \<and> r = rr \<and> st' = st1))"

text \<open>
  What user code can do to an entry of the queue from outside the loop: \<^verbatim>\<open>clearData\<close>
  sets both fields to \<^verbatim>\<open>null\<close>, and \<^verbatim>\<open>conflate\<close> changes the state of a queued
  conflatable message. The identifier and, unless cleared, the handler stay.
\<close>

definition steady :: "posted \<Rightarrow> posted \<Rightarrow> bool" where
  "steady p p' \<longleftrightarrow>
     pid p' = pid p \<and>
     ((handler p' = None \<and> msg p' = None) \<or>
      (handler p' = handler p \<and>
         (msg p' = msg p \<or> (\<exists>pm. msg p = Some pm \<and> isConflatable pm \<and> msg p' \<noteq> None))))"

text \<open>
  The queue of \<open>st'\<close> is the queue of \<open>st\<close>, entry by entry as above, followed
  by entries created since.
\<close>

definition extends :: "loop \<Rightarrow> loop \<Rightarrow> bool" where
  "extends st st' \<longleftrightarrow>
     nextPid st \<le> nextPid st' \<and>
     (\<exists>kept new. messageQueue st' = kept @ new \<and> list_all2 steady (messageQueue st) kept \<and>
        (\<forall>p \<in> set new. nextPid st \<le> pid p \<and> pid p < nextPid st'))"

definition extended :: "loop \<Rightarrow> ('a \<times> loop) option \<Rightarrow> bool" where
  "extended st res \<longleftrightarrow> (case res of None \<Rightarrow> True | Some (y, st') \<Rightarrow> extends st st')"

text \<open>
  No handler, hook or exception handler calls \<^verbatim>\<open>flush\<close> itself.
\<close>

definition flushFree :: "callbacks \<Rightarrow> bool" where
  "flushFree env \<longleftrightarrow>
     (\<forall>h m st. Flush \<notin> set (processMessage env h m st)) \<and>
     (\<forall>k h m st. Flush \<notin> set (fst (messageHook env k h m st))) \<and>
     (\<forall>h e st. Flush \<notin> set (onError env h e st))"

text \<open>
  The queue entries for a list of posted messages, numbered from \<open>n\<close>.
\<close>

fun entriesFrom :: "nat \<Rightarrow> (ref \<times> message) list \<Rightarrow> posted list" where
  "entriesFrom n [] = []"
| "entriesFrom n ((h, m) # ps) = \<lparr>pid = n, handler = Some h, msg = Some m\<rparr> # entriesFrom (Suc n) ps"

text \<open>
  A sequence of \<^verbatim>\<open>postMessage\<close> calls.
\<close>

definition posts :: "(message \<Rightarrow> message \<Rightarrow> bool \<times> message) \<Rightarrow> (ref \<times> message) list \<Rightarrow> loop \<Rightarrow> loop" where
  "posts cf ps st = fold (\<lambda>(h, m) s. postMessage cf h m s) ps st"

text \<open>
  The identifiers in the queue have been given out already.
\<close>

definition pidsOK :: "loop \<Rightarrow> bool" where
  "pidsOK st \<longleftrightarrow> (\<forall>p \<in> set (messageQueue st). pid p < nextPid st)"

text \<open>
  An entry after \<^verbatim>\<open>clearData\<close> for its handler; an entry is removed from the queue as
  it was posted or cleared.
\<close>

definition cleared :: "posted \<Rightarrow> posted" where
  "cleared p = p\<lparr>handler := None, msg := None\<rparr>"

definition poppedAs :: "posted \<Rightarrow> posted \<Rightarrow> bool" where
  "poppedAs p p' \<longleftrightarrow> p' = p \<or> p' = cleared p"

subsection \<open>Scenarios of the tests of the message loop\<close>

text \<open>
  The state before any call.
\<close>

definition newLoop :: loop where
  "newLoop = \<lparr>messageQueue = [], messageHooks = Map.empty, loopTaskID = 0, loopFlushGuard = False,
     hookCleaner = newCleaner, loopHost = newScheduler, loopExceptionHandler = 0, nextPid = 0,
     trace = []\<rparr>"

text \<open>
  Modelled from the spec: the base class \<^verbatim>\<open>Message\<close> of the missing \<^verbatim>\<open>Message.ts\<close>
  is not conflatable and its \<^verbatim>\<open>conflate\<close> returns \<^verbatim>\<open>false\<close> (section 3 of the
  specification, and the test "should not conflate a non-conflatable message").
  \<^verbatim>\<open>ConflatableMessage.ts\<close> overrides both with \<^verbatim>\<open>true\<close>; \<open>plainConflate\<close> is
  \<^verbatim>\<open>conflate\<close> of these two classes.
\<close>

definition Message :: "string \<Rightarrow> message" where
  "Message t = \<lparr>type = t, isConflatable = False, payload = 0\<rparr>"

definition ConflatableMessage :: "string \<Rightarrow> message" where
  "ConflatableMessage t = \<lparr>type = t, isConflatable = True, payload = 0\<rparr>"

definition plainConflate :: "message \<Rightarrow> message \<Rightarrow> bool \<times> message" where
  "plainConflate this other = (isConflatable this, this)"

definition installs :: "ref \<Rightarrow> ref list \<Rightarrow> loop \<Rightarrow> loop" where
  "installs h ks st = fold (installMessageHook h) ks st"

text \<open>
  Hook 53 removes hook 51 and installs hook 54 on the handler it is called for.
\<close>

definition snapshotEnv :: callbacks where
  "snapshotEnv = \<lparr>
     processMessage = (\<lambda>h m st. []),
     messageHook = (\<lambda>k h m st.
        if k = 53 then ([Do (RemoveMessageHook h 51), Do (InstallMessageHook h 54)], True)
        else ([], True)),
     onError = (\<lambda>h e st. []),
     conflate = plainConflate\<rparr>"

text \<open>
  Handlers, hooks and exception handlers which do nothing; hooks which veto the messages
  of type \<^verbatim>\<open>one\<close>, hook 42 throwing.
\<close>

definition plainEnv :: callbacks where
  "plainEnv = \<lparr>processMessage = (\<lambda>h m st. []), messageHook = (\<lambda>k h m st. ([], True)),
     onError = (\<lambda>h e st. []), conflate = plainConflate\<rparr>"

definition vetoing :: callbacks where
  "vetoing = \<lparr>
     processMessage = (\<lambda>h m st. []),
     messageHook = (\<lambda>k h m st.
        if k = 42 then ([Raise ''hook error''], False) else ([], type m \<noteq> ''one'')),
     onError = (\<lambda>h e st. []),
     conflate = plainConflate\<rparr>"

text \<open>
  Hook 42 and handler 9 throw (the \<^verbatim>\<open>BadHandler\<close> of the tests), and the exception
  handler 66 throws in turn.
\<close>

definition rethrowEnv :: callbacks where
  "rethrowEnv = \<lparr>
     processMessage = (\<lambda>h m st. if h = 9 then [Raise ''process error''] else []),
     messageHook = (\<lambda>k h m st. if k = 42 then ([Raise ''hook error''], False) else ([], True)),
     onError = (\<lambda>h e st. if h = 66 then [Raise ''again''] else []),
     conflate = plainConflate\<rparr>"

text \<open>
  Handlers which, on a message of type \<^verbatim>\<open>one\<close>, call \<^verbatim>\<open>clearData\<close> for handler 1.
\<close>

definition clearing :: callbacks where
  "clearing = \<lparr>
     processMessage = (\<lambda>h m st. if type m = ''one'' then [Do (ClearData 1)] else []),
     messageHook = (\<lambda>k h m st. ([], True)),
     onError = (\<lambda>h e st. []),
     conflate = plainConflate\<rparr>"

text \<open>
  A handler which, on a message of type \<^verbatim>\<open>one\<close>, posts a message of type \<^verbatim>\<open>two\<close> to
  itself and calls \<^verbatim>\<open>flush\<close>.
\<close>

definition reposting :: callbacks where
  "reposting = \<lparr>
     processMessage = (\<lambda>h m st.
        if type m = ''one'' then [Do (PostMessage h (Message ''two'')), Flush] else []),
     messageHook = (\<lambda>k h m st. ([], True)),
     onError = (\<lambda>h e st. []),
     conflate = plainConflate\<rparr>"

text \<open>
  Modelled from the spec: the host runs a scheduled callback once, on a later turn
  (section 5 of the specification). The task scheduled by \<^verbatim>\<open>enqueueMessage\<close> is taken
  from the pending tasks and \<^verbatim>\<open>runMessageLoop\<close> is called, outside of \<^verbatim>\<open>flush\<close>.
\<close>

definition fireLoopTask ::
  "nat \<Rightarrow> callbacks \<Rightarrow> loop \<Rightarrow> ((popped list \<times> err option) \<times> loop) option" where
  "fireLoopTask f env st =
     runMessageLoop f env (st\<lparr>loopHost := unschedule (loopTaskID st) (loopHost st)\<rparr>)"

text \<open>
  A conflatable message with a state, whose \<^verbatim>\<open>conflate\<close> accepts a message with the
  same state.
\<close>

definition Merging :: "string \<Rightarrow> nat \<Rightarrow> message" where
  "Merging t n = \<lparr>type = t, isConflatable = True, payload = n\<rparr>"

definition samePayload :: "message \<Rightarrow> message \<Rightarrow> bool \<times> message" where
  "samePayload this other = (payload this = payload other, this)"

text \<open>
  What the scenarios observe of a result: the calls of \<^verbatim>\<open>processMessage\<close> in order; the
  entries removed by a loop, the value that left it and the entries left in the queue;
  the hooks invoked by \<^verbatim>\<open>sendMessage\<close>, the call of the handler, the value that left
  it and the calls of user code.
\<close>

definition handlerLog :: "('a \<times> loop) option \<Rightarrow> (ref \<times> string) list option" where
  "handlerLog res = map_option (\<lambda>(y, st). [(h, type m). HandlerCall h m \<leftarrow> trace st]) res"

definition drained ::
  "((popped list \<times> err option) \<times> loop) option \<Rightarrow> (nat list \<times> err option \<times> nat list) option" where
  "drained res =
     map_option (\<lambda>((pops, r), st). (map (\<lambda>pp. pid (entry pp)) pops, r, map pid (messageQueue st))) res"

definition sentOutcome ::
  "((sent \<times> err option) \<times> loop) option
     \<Rightarrow> ((ref \<times> hookResult) list \<times> err option option \<times> err option \<times> event list) option" where
  "sentOutcome res = map_option (\<lambda>((obs, r), st). (hooksRun obs, handled obs, r, trace st)) res"

section \<open>Properties of the deferred cleaner\<close>

lemma clean_first_schedules:
  "dirtySet c = {} \<Longrightarrow>
   clean cb a (c, h) =
     (c\<lparr>dirtySet := {a}, scheduleId := Suc (lastId h)\<rparr>,
      h\<lparr>lastId := Suc (lastId h), pending := pending h @ [(Suc (lastId h), cb)]\<rparr>)"
  by (simp add: clean_def schedule_def)

lemma clean_later_only_adds:
  "dirtySet c \<noteq> {} \<Longrightarrow> clean cb a (c, h) = (c\<lparr>dirtySet := insert a (dirtySet c)\<rparr>, h)"
  by (simp add: clean_def)

lemma cancel_nothing_scheduled: "scheduleId c = 0 \<Longrightarrow> cancel (c, h) = (c, h)"
  by (simp add: cancel_def)

lemma cancel_keeps_dirtySet: "dirtySet (fst (cancel (c, h))) = dirtySet c"
  by (simp add: cancel_def)

text \<open>
  Without \<^verbatim>\<open>cancel\<close> the scheduling discipline holds: while the dirty set is not empty,
  exactly the task named by \<^verbatim>\<open>scheduleId\<close> has been added to the host's pending tasks.
\<close>

lemma clean_only_one_task:
  assumes "dirtySet c \<noteq> {} \<longrightarrow> pending h = ts @ [(scheduleId c, cb)]"
    and "dirtySet c = {} \<longrightarrow> pending h = ts"
  shows "pending (snd (cleanerCalls cb (map Clean as) (c, h))) =
         (if dirtySet c = {} \<and> as = [] then ts
          else ts @ [(scheduleId (fst (cleanerCalls cb (map Clean as) (c, h))), cb)])"
  using assms
proof (induction as arbitrary: c h)
  case Nil
  then show ?case by simp
next
  case (Cons a as)
  show ?case
  proof (cases "dirtySet c = {}")
    case True
    with Cons.prems have p: "pending h = ts" by simp
    from True have step: "clean cb a (c, h) =
        (c\<lparr>dirtySet := {a}, scheduleId := Suc (lastId h)\<rparr>,
         h\<lparr>lastId := Suc (lastId h), pending := pending h @ [(Suc (lastId h), cb)]\<rparr>)"
      by (rule clean_first_schedules)
    show ?thesis
      using Cons.IH [of "c\<lparr>dirtySet := {a}, scheduleId := Suc (lastId h)\<rparr>"
          "h\<lparr>lastId := Suc (lastId h), pending := pending h @ [(Suc (lastId h), cb)]\<rparr>"]
      by (simp add: step p)
  next
    case False
    with Cons.prems have p: "pending h = ts @ [(scheduleId c, cb)]" by simp
    from False have step: "clean cb a (c, h) = (c\<lparr>dirtySet := insert a (dirtySet c)\<rparr>, h)"
      by (rule clean_later_only_adds)
    show ?thesis
      using Cons.IH [of "c\<lparr>dirtySet := insert a (dirtySet c)\<rparr>" h] False
      by (simp add: step p)
  qed
qed

text \<open>
  Claim C9. The claimed invariant: after any interleaving of \<^verbatim>\<open>clean\<close> and
  \<^verbatim>\<open>cancel\<close> calls, a non-empty pending set implies one scheduled task. The code does
  not keep it: \<^verbatim>\<open>cancel\<close> resets \<^verbatim>\<open>scheduleId\<close> and leaves \<^verbatim>\<open>dirtySet\<close> as it is, and
  \<^verbatim>\<open>clean\<close> decides on \<^verbatim>\<open>dirtySet.size\<close>. On a fresh cleaner, after
  \<^verbatim>\<open>clean(a); cancel(); clean(b)\<close> both arrays are in the dirty set, no task is pending
  in the host scheduler and \<^verbatim>\<open>scheduleId\<close> is \<^verbatim>\<open>0\<close>.
\<close>

theorem C9_cancel_leaves_dirty_unscheduled:
  "cleanerCalls () [Clean (1::nat), Cancel, Clean 2] (newCleaner, newScheduler) =
     (\<lparr>dirtySet = {1, 2}, scheduleId = 0, flushGuard = False\<rparr>,
      \<lparr>lastId = 1, pending = []\<rparr>)"
  by (auto simp add: clean_def cancel_def schedule_def unschedule_def newCleaner_def
      newScheduler_def)

section \<open>Properties of the signal registry\<close>

subsection \<open>The registry under the calls of the public interface\<close>

lemma grown_refl: "grown n cs cs"
  by (simp add: grown_def)

lemma grown_trans: "grown n cs1 cs2 \<Longrightarrow> grown m cs2 cs3 \<Longrightarrow> n \<le> m \<Longrightarrow> grown n cs1 cs3"
  unfolding grown_def by fastforce

lemma grown_snoc: "n \<le> c \<Longrightarrow> grown n cs (cs @ [c])"
  by (simp add: grown_def)

lemma fades_refl: "fades h h"
  by (simp add: fades_def)

lemma fades_trans: "fades h1 h2 \<Longrightarrow> fades h2 h3 \<Longrightarrow> fades h1 h3"
  unfolding fades_def
  by (metis (no_types, lifting) le_trans less_le_trans)

lemma fades_clear: "fades h (clear c h)"
proof (cases "c < length h")
  case True
  then show ?thesis
    by (auto simp: fades_def clear_def nth_list_update)
next
  case False
  then show ?thesis
    by (simp add: fades_def clear_def list_update_beyond)
qed

lemma length_clear: "length (clear c h) = length h"
  by (simp add: clear_def)

lemma fades_fold:
  assumes "\<And>c h. fades h (g c h)"
  shows "fades h (fold g cs h)"
proof (induction cs arbitrary: h)
  case Nil
  show ?case by (simp add: fades_refl)
next
  case (Cons c cs)
  have "fades h (g c h)" by (rule assms)
  moreover have "fades (g c h) (fold g cs (g c h))" by (rule Cons.IH)
  ultimately show ?case by (simp add: fades_trans)
qed

lemma length_fold_same:
  assumes "\<And>c h. length (g c h) = length h"
  shows "length (fold g cs h) = length h"
  by (induction cs arbitrary: h) (simp_all add: assms)

lemma evolves_refl: "evolves st st"
  by (simp add: evolves_def fades_refl grown_refl)

lemma fades_length: "fades h h' \<Longrightarrow> length h \<le> length h'"
  by (simp add: fades_def)

lemma evolves_trans:
  assumes "evolves s1 s2" and "evolves s2 s3"
  shows "evolves s1 s3"
proof -
  from assms(1) have le: "length (heap s1) \<le> length (heap s2)"
    by (simp add: evolves_def fades_length)
  have "fades (heap s1) (heap s3)"
    using assms by (auto simp: evolves_def intro: fades_trans)
  moreover have "grown (length (heap s1))
      (arrayOf (receiversForSender s1) s) (arrayOf (receiversForSender s3) s)" for s
    using assms le by (auto simp: evolves_def intro: grown_trans)
  moreover have "grown (length (heap s1))
      (arrayOf (sendersForReceiver s1) r) (arrayOf (sendersForReceiver s3) r)" for r
    using assms le by (auto simp: evolves_def intro: grown_trans)
  moreover have "prefix (caught s1) (caught s3)"
    using assms by (auto simp: evolves_def)
  ultimately show ?thesis by (simp add: evolves_def)
qed

lemma scheduleCleanup_fields:
  "heap (scheduleCleanup a st) = heap st"
  "receiversForSender (scheduleCleanup a st) = receiversForSender st"
  "sendersForReceiver (scheduleCleanup a st) = sendersForReceiver st"
  "caught (scheduleCleanup a st) = caught st"
  "exceptionHandler (scheduleCleanup a st) = exceptionHandler st"
  by (simp_all add: scheduleCleanup_def split: prod.splits)

lemma wellFormed_scheduleCleanup: "wellFormed (scheduleCleanup a st) = wellFormed st"
  by (simp add: wellFormed_def scheduleCleanup_fields)

lemma evolves_scheduleCleanup: "evolves st (scheduleCleanup a st)"
  by (simp add: evolves_def scheduleCleanup_fields fades_refl grown_refl)

lemma evolves_heap:
  "fades (heap st) h' \<Longrightarrow> evolves st (st\<lparr>heap := h'\<rparr>)"
  by (simp add: evolves_def grown_refl)

lemma wellFormed_heap:
  "wellFormed st \<Longrightarrow> length (heap st) \<le> length h' \<Longrightarrow> wellFormed (st\<lparr>heap := h'\<rparr>)"
  by (fastforce simp: wellFormed_def)

lemma evolves_fold:
  assumes "\<And>c s. evolves s (g c s)"
  shows "evolves s (fold g cs s)"
proof (induction cs arbitrary: s)
  case Nil
  show ?case by (simp add: evolves_refl)
next
  case (Cons c cs)
  have "evolves s (g c s)" by (rule assms)
  moreover have "evolves (g c s) (fold g cs (g c s))" by (rule Cons.IH)
  ultimately show ?case by (simp add: evolves_trans)
qed

lemma wellFormed_fold:
  assumes "\<And>c s. wellFormed s \<Longrightarrow> wellFormed (g c s)" and "wellFormed s"
  shows "wellFormed (fold g cs s)"
  using assms(2) by (induction cs arbitrary: s) (simp_all add: assms(1))

lemma wellFormed_clear: "wellFormed st \<Longrightarrow> wellFormed (st\<lparr>heap := clear c (heap st)\<rparr>)"
  by (rule wellFormed_heap) (simp_all add: length_clear)

lemma evolves_clear: "evolves st (st\<lparr>heap := clear c (heap st)\<rparr>)"
  by (rule evolves_heap) (rule fades_clear)

lemma fades_append: "fades h (h @ [x])"
  by (simp add: fades_def nth_append)

lemma connect_False: "fst (connect sig sl cx st) = False \<Longrightarrow> snd (connect sig sl cx st) = st"
  by (auto simp: connect_def Let_def findConnection_def arrayOf_def split: option.splits)

lemma connect_arrays:
  assumes "connect sig sl cx st = (True, st')"
  shows "heap st' = heap st @ [\<lparr>signal = Some sig, slot = sl, context = cx\<rparr>]"
    and "arrayOf (receiversForSender st') s =
           (if s = sender sig then arrayOf (receiversForSender st) s @ [length (heap st)]
            else arrayOf (receiversForSender st) s)"
    and "arrayOf (sendersForReceiver st') r =
           (if r = receiverOf sl cx then arrayOf (sendersForReceiver st) r @ [length (heap st)]
            else arrayOf (sendersForReceiver st) r)"
    and "caught st' = caught st"
  using assms
  by (auto simp: connect_def Let_def arrayOf_def split: option.splits)

lemma evolves_connect: "evolves st (snd (connect sig sl cx st))"
proof (cases "fst (connect sig sl cx st)")
  case False
  then show ?thesis by (simp add: connect_False evolves_refl)
next
  case True
  then have c: "connect sig sl cx st = (True, snd (connect sig sl cx st))"
    by (metis prod.collapse)
  show ?thesis
    unfolding evolves_def
    by (simp add: connect_arrays [OF c] fades_append grown_refl grown_snoc)
qed

lemma wellFormed_connect: "wellFormed st \<Longrightarrow> wellFormed (snd (connect sig sl cx st))"
proof (cases "fst (connect sig sl cx st)")
  case False
  then show "wellFormed st \<Longrightarrow> ?thesis" by (simp add: connect_False)
next
  case True
  then have c: "connect sig sl cx st = (True, snd (connect sig sl cx st))"
    by (metis prod.collapse)
  show "wellFormed st \<Longrightarrow> ?thesis"
    unfolding wellFormed_def
    by (auto simp add: connect_arrays [OF c] less_Suc_eq split: if_splits)
qed

lemma evolves_sc: "evolves st s \<Longrightarrow> evolves st (scheduleCleanup a s)"
  by (rule evolves_trans [OF _ evolves_scheduleCleanup])

lemma evolves_disconnect: "evolves st (snd (disconnect sig sl cx st))"
  by (simp add: disconnect_def evolves_refl evolves_sc evolves_clear split: option.splits)

lemma wellFormed_disconnect: "wellFormed st \<Longrightarrow> wellFormed (snd (disconnect sig sl cx st))"
  by (simp add: disconnect_def wellFormed_scheduleCleanup wellFormed_clear split: option.splits)

lemma fades_between:
  "fades h (fold (\<lambda>c h. case signal (h ! c) of None \<Rightarrow> h
                        | Some sig \<Rightarrow> if sender sig = s then clear c h else h) cs h)"
  by (rule fades_fold) (simp add: fades_refl fades_clear split: option.splits)

lemma length_between:
  "length (fold (\<lambda>c h. case signal (h ! c) of None \<Rightarrow> h
                        | Some sig \<Rightarrow> if sender sig = s then clear c h else h) cs h) = length h"
  by (rule length_fold_same) (simp add: length_clear split: option.splits)

lemma evolves_disconnectBetween: "evolves st (disconnectBetween s r st)"
  by (simp add: disconnectBetween_def evolves_refl evolves_sc evolves_heap fades_between
      split: option.splits)

lemma wellFormed_disconnectBetween: "wellFormed st \<Longrightarrow> wellFormed (disconnectBetween s r st)"
  by (simp add: disconnectBetween_def wellFormed_scheduleCleanup wellFormed_heap length_between
      split: option.splits)

lemma evolves_step_sender:
  "evolves s (case signal (heap s ! c) of None \<Rightarrow> s
     | Some sig \<Rightarrow> scheduleCleanup (a s c) (s\<lparr>heap := clear c (heap s)\<rparr>))"
  by (simp add: evolves_refl evolves_sc evolves_clear split: option.splits)

lemma wellFormed_step_sender:
  "wellFormed s \<Longrightarrow> wellFormed (case signal (heap s ! c) of None \<Rightarrow> s
     | Some sig \<Rightarrow> scheduleCleanup (a s c) (s\<lparr>heap := clear c (heap s)\<rparr>))"
  by (simp add: wellFormed_scheduleCleanup wellFormed_clear split: option.splits)

lemma evolves_step_receiver:
  "evolves s (case signal (heap s ! c) of None \<Rightarrow> s
     | Some sig \<Rightarrow> scheduleCleanup (a sig) (s\<lparr>heap := clear c (heap s)\<rparr>))"
  by (simp add: evolves_refl evolves_sc evolves_clear split: option.splits)

lemma wellFormed_step_receiver:
  "wellFormed s \<Longrightarrow> wellFormed (case signal (heap s ! c) of None \<Rightarrow> s
     | Some sig \<Rightarrow> scheduleCleanup (a sig) (s\<lparr>heap := clear c (heap s)\<rparr>))"
  by (simp add: wellFormed_scheduleCleanup wellFormed_clear split: option.splits)

lemma evolves_disconnectSender: "evolves st (disconnectSender s st)"
proof -
  have "evolves st (fold (\<lambda>c s. case signal (heap s ! c) of None \<Rightarrow> s
          | Some sig \<Rightarrow> scheduleCleanup
              (SendersOf (receiverOf (slot (heap s ! c)) (context (heap s ! c))))
              (s\<lparr>heap := clear c (heap s)\<rparr>)) cs st)" for cs
    by (rule evolves_fold) (rule evolves_step_sender)
  then show ?thesis
    by (simp add: disconnectSender_def evolves_refl evolves_sc split: option.splits)
qed

lemma wellFormed_disconnectSender:
  assumes "wellFormed st"
  shows "wellFormed (disconnectSender s st)"
proof -
  have "wellFormed (fold (\<lambda>c s. case signal (heap s ! c) of None \<Rightarrow> s
          | Some sig \<Rightarrow> scheduleCleanup
              (SendersOf (receiverOf (slot (heap s ! c)) (context (heap s ! c))))
              (s\<lparr>heap := clear c (heap s)\<rparr>)) cs st)" for cs
    by (rule wellFormed_fold [OF _ assms]) (rule wellFormed_step_sender)
  then show ?thesis
    using assms by (simp add: disconnectSender_def wellFormed_scheduleCleanup split: option.splits)
qed

lemma evolves_disconnectReceiver: "evolves st (disconnectReceiver r st)"
proof -
  have "evolves st (fold (\<lambda>c s. case signal (heap s ! c) of None \<Rightarrow> s
          | Some sig \<Rightarrow> scheduleCleanup (ReceiversOf (sender sig))
              (s\<lparr>heap := clear c (heap s)\<rparr>)) cs st)" for cs
    by (rule evolves_fold) (rule evolves_step_receiver)
  then show ?thesis
    by (simp add: disconnectReceiver_def evolves_refl evolves_sc split: option.splits)
qed

lemma wellFormed_disconnectReceiver:
  assumes "wellFormed st"
  shows "wellFormed (disconnectReceiver r st)"
proof -
  have "wellFormed (fold (\<lambda>c s. case signal (heap s ! c) of None \<Rightarrow> s
          | Some sig \<Rightarrow> scheduleCleanup (ReceiversOf (sender sig))
              (s\<lparr>heap := clear c (heap s)\<rparr>)) cs st)" for cs
    by (rule wellFormed_fold [OF _ assms]) (rule wellFormed_step_receiver)
  then show ?thesis
    using assms by (simp add: disconnectReceiver_def wellFormed_scheduleCleanup split: option.splits)
qed

lemma disconnectAll_split: "disconnectAll obj st = clearSenders obj (clearReceivers obj st)"
  by (simp add: disconnectAll_def clearSenders_def clearReceivers_def Let_def)

lemma evolves_clearAll: "evolves st (st\<lparr>heap := fold clear cs (heap st)\<rparr>)"
  by (intro evolves_heap fades_fold fades_clear)

lemma wellFormed_clearAll: "wellFormed st \<Longrightarrow> wellFormed (st\<lparr>heap := fold clear cs (heap st)\<rparr>)"
  by (rule wellFormed_heap) (simp_all add: length_fold_same length_clear)

lemma evolves_clearReceivers: "evolves st (clearReceivers obj st)"
  by (simp add: clearReceivers_def evolves_refl evolves_sc evolves_clearAll split: option.splits)

lemma evolves_clearSenders: "evolves st (clearSenders obj st)"
  by (simp add: clearSenders_def evolves_refl evolves_sc evolves_clearAll split: option.splits)

lemma wellFormed_clearReceivers: "wellFormed st \<Longrightarrow> wellFormed (clearReceivers obj st)"
  by (simp add: clearReceivers_def wellFormed_scheduleCleanup wellFormed_clearAll split: option.splits)

lemma wellFormed_clearSenders: "wellFormed st \<Longrightarrow> wellFormed (clearSenders obj st)"
  by (simp add: clearSenders_def wellFormed_scheduleCleanup wellFormed_clearAll split: option.splits)

lemma evolves_disconnectAll: "evolves st (disconnectAll obj st)"
  unfolding disconnectAll_split
  by (rule evolves_trans [OF evolves_clearReceivers evolves_clearSenders])

lemma wellFormed_disconnectAll: "wellFormed st \<Longrightarrow> wellFormed (disconnectAll obj st)"
  unfolding disconnectAll_split
  by (simp add: wellFormed_clearReceivers wellFormed_clearSenders)

lemma evolves_setExceptionHandler: "evolves st (snd (setExceptionHandler h st))"
  by (simp add: setExceptionHandler_def evolves_def fades_refl grown_refl)

lemma wellFormed_setExceptionHandler: "wellFormed st \<Longrightarrow> wellFormed (snd (setExceptionHandler h st))"
  by (simp add: setExceptionHandler_def wellFormed_def)

lemma evolves_perform: "evolves st (perform c st)"
  by (cases c)
    (simp_all add: evolves_connect evolves_disconnect evolves_disconnectBetween
      evolves_disconnectSender evolves_disconnectReceiver evolves_disconnectAll
      evolves_setExceptionHandler)

lemma wellFormed_perform: "wellFormed st \<Longrightarrow> wellFormed (perform c st)"
  by (cases c)
    (simp_all add: wellFormed_connect wellFormed_disconnect wellFormed_disconnectBetween
      wellFormed_disconnectSender wellFormed_disconnectReceiver wellFormed_disconnectAll
      wellFormed_setExceptionHandler)

subsection \<open>Emission keeps the invariants\<close>

text \<open>
  Whatever slots and exception handlers do, a call of \<^verbatim>\<open>emit\<close> that ends leaves a
  well-formed registry reached from the one it started in: the arrays have only grown at
  the end and the connections have only been cleared.
\<close>

lemma keeps_None: "keeps st None"
  by (simp add: keeps_def)

lemma keeps_Some: "keeps st (Some (r, st')) \<longleftrightarrow> wellFormed st' \<and> evolves st st'"
  by (simp add: keeps_def)

lemma keeps_step: "evolves st s1 \<Longrightarrow> keeps s1 res \<Longrightarrow> keeps st res"
  by (auto simp: keeps_def split: option.splits intro: evolves_trans)

lemma evolves_caught: "evolves st (st\<lparr>caught := caught st @ es\<rparr>)"
  by (simp add: evolves_def fades_refl grown_refl)

lemma wellFormed_caught: "wellFormed (st\<lparr>caught := es\<rparr>) = wellFormed st"
  by (simp add: wellFormed_def)

lemma forEachReceiver_skip:
  "\<not> live st sig k \<Longrightarrow>
   forEachReceiver f env sig x (k # ks) st = forEachReceiver f env sig x ks st"
  unfolding live_def receiversOf_def by (auto simp add: Let_def)

lemma forEachReceiver_invoke:
  "live st sig k \<Longrightarrow>
   forEachReceiver f env sig x (k # ks) st =
     (case invokeSlot f env (receiversOf st sig ! k) x st of
        None \<Rightarrow> None
      | Some ((t, Some e), st1) \<Rightarrow>
          Some (([\<lparr>index = k, conn = receiversOf st sig ! k, thrown = t, after = st1\<rparr>], Some e), st1)
      | Some ((t, None), st1) \<Rightarrow>
          (case forEachReceiver f env sig x ks st1 of
             None \<Rightarrow> None
           | Some ((ds, r), st2) \<Rightarrow>
               Some ((\<lparr>index = k, conn = receiversOf st sig ! k, thrown = t, after = st1\<rparr> # ds, r),
                     st2)))"
  unfolding live_def receiversOf_def by (simp add: Let_def)

lemma keeps_run: "wellFormed st \<Longrightarrow> keeps st (run f env as st)"
  and keeps_emit: "wellFormed st \<Longrightarrow> keeps st (emit f env sig x st)"
  and keeps_forEachReceiver: "wellFormed st \<Longrightarrow> keeps st (forEachReceiver f env sig x ks st)"
  and keeps_invokeSlot: "wellFormed st \<Longrightarrow> keeps st (invokeSlot f env c x st)"
  and keeps_handleException: "wellFormed st \<Longrightarrow> keeps st (handleException f env e st)"
proof (induction f env as st and f env sig x st and f env sig x ks st and f env c x st
    and f env e st rule: run_emit_forEachReceiver_invokeSlot_handleException.induct)
  case (1 f env st)
  then show ?case by (simp add: keeps_Some evolves_refl)
next
  case (2 f env c as st)
  from "2.prems" have "wellFormed (perform c st)" by (rule wellFormed_perform)
  then have "keeps (perform c st) (run f env as (perform c st))" by (rule "2.IH")
  with evolves_perform have "keeps st (run f env as (perform c st))" by (rule keeps_step)
  then show ?case by simp
next
  case (3 f env e as st)
  then show ?case by (simp add: keeps_Some evolves_refl)
next
  case (4 f env sig x as st)
  show ?case
  proof (cases "emit f env sig x st")
    case None
    then show ?thesis by (simp add: keeps_None)
  next
    case (Some p)
    obtain ds r st1 where p: "p = ((ds, r), st1)" by (cases p) auto
    from "4.IH"(1) [OF "4.prems"] Some p have k: "wellFormed st1" "evolves st st1"
      by (simp_all add: keeps_Some)
    show ?thesis
    proof (cases r)
      case None
      from "4.IH"(2) [OF Some [unfolded p None] refl refl refl k(1)]
      have "keeps st1 (run f env as st1)" .
      with k(2) have "keeps st (run f env as st1)" by (rule keeps_step)
      with Some p None show ?thesis by simp
    next
      case (Some e)
      with \<open>emit f env sig x st = Some p\<close> p k show ?thesis by (simp add: keeps_Some)
    qed
  qed
next
  case (5 f env sig x st)
  show ?case
  proof (cases "receiversForSender st (sender sig)")
    case None
    with "5.prems" show ?thesis by (simp add: keeps_Some evolves_refl)
  next
    case (Some receivers)
    show ?thesis
    proof (cases "receivers = []")
      case True
      with Some "5.prems" show ?thesis by (simp add: keeps_Some evolves_refl)
    next
      case False
      from "5.IH" [OF Some False "5.prems"] Some False show ?thesis by simp
    qed
  qed
next
  case (6 f env sig x st)
  then show ?case by (simp add: keeps_Some evolves_refl)
next
  case (7 f env sig x k ks st)
  define receivers where "receivers = arrayOf (receiversForSender st) (sender sig)"
  show ?case
  proof (cases "k < length receivers \<and> signal (heap st ! (receivers ! k)) = Some sig")
    case False
    then have nl: "\<not> live st sig k" by (simp add: live_def receiversOf_def receivers_def)
    from "7.IH"(3) [OF receivers_def False "7.prems"] show ?thesis
      by (simp only: forEachReceiver_skip [OF nl])
  next
    case True
    then have l: "live st sig k" by (simp add: live_def receiversOf_def receivers_def)
    have rs: "receiversOf st sig = receivers" by (simp add: receiversOf_def receivers_def)
    show ?thesis
    proof (cases "invokeSlot f env (receivers ! k) x st")
      case None
      then show ?thesis by (simp only: forEachReceiver_invoke [OF l] rs) (simp add: keeps_None)
    next
      case (Some p)
      obtain t r st1 where p: "p = ((t, r), st1)" by (cases p) auto
      from "7.IH"(1) [OF receivers_def True "7.prems"] Some p have k: "wellFormed st1" "evolves st st1"
        by (simp_all add: keeps_Some)
      show ?thesis
      proof (cases r)
        case (Some e)
        with \<open>invokeSlot f env (receivers ! k) x st = Some p\<close> p k show ?thesis
          by (simp only: forEachReceiver_invoke [OF l] rs) (simp add: keeps_Some)
      next
        case None
        from "7.IH"(2) [OF receivers_def True Some [unfolded p None] refl refl refl k(1)]
        have "keeps st1 (forEachReceiver f env sig x ks st1)" .
        with k(2) have "keeps st (forEachReceiver f env sig x ks st1)" by (rule keeps_step)
        with Some p None show ?thesis
          by (simp only: forEachReceiver_invoke [OF l] rs)
            (auto simp add: keeps_def split: option.splits)
      qed
    qed
  qed
next
  case (8 env c x st)
  show ?case by (simp add: keeps_None)
next
  case (9 f env c x st)
  show ?case
  proof (cases "signal (heap st ! c)")
    case None
    from "9.IH"(1) [OF None "9.prems"] None show ?thesis
      by (auto simp add: keeps_def split: option.splits)
  next
    case (Some sig)
    let ?as = "slotCode env (slot (heap st ! c)) (context (heap st ! c)) (sender sig) x st"
    from "9.IH"(2) [OF Some "9.prems"] have kr: "keeps st (run f env ?as st)" .
    show ?thesis
    proof (cases "run f env ?as st")
      case None
      with Some show ?thesis by (simp add: keeps_None)
    next
      case (Some p)
      obtain r st1 where p: "p = (r, st1)" by (cases p)
      from kr Some p have k: "wellFormed st1" "evolves st st1" by (simp_all add: keeps_Some)
      show ?thesis
      proof (cases r)
        case None
        with \<open>signal (heap st ! c) = Some sig\<close> Some p k show ?thesis by (simp add: keeps_Some)
      next
        case (Some e)
        from "9.IH"(3) [OF \<open>signal (heap st ! c) = Some sig\<close>
            \<open>run f env ?as st = Some p\<close> [unfolded p Some] refl refl k(1)]
        have "keeps st1 (handleException f env e st1)" .
        with k(2) have "keeps st (handleException f env e st1)" by (rule keeps_step)
        with \<open>signal (heap st ! c) = Some sig\<close> \<open>run f env ?as st = Some p\<close> p Some show ?thesis
          by (auto simp add: keeps_def split: option.splits)
      qed
    qed
  qed
next
  case (10 f env e st)
  let ?st1 = "st\<lparr>caught := caught st @ [(exceptionHandler st, e)]\<rparr>"
  from "10.prems" have w: "wellFormed ?st1" by (simp add: wellFormed_caught)
  from "10.IH" [OF refl w] have "keeps ?st1 (run f env (handlerCode env (exceptionHandler st) e ?st1) ?st1)" .
  with evolves_caught have "keeps st (run f env (handlerCode env (exceptionHandler st) e ?st1) ?st1)"
    by (rule keeps_step)
  then show ?case by (simp add: Let_def)
qed

subsection \<open>One pass over the receivers\<close>

lemma evolves_receivers_nth:
  assumes "evolves st st1" and "k < length (receiversOf st sig)"
  shows "receiversOf st1 sig ! k = receiversOf st sig ! k"
    and "k < length (receiversOf st1 sig)"
proof -
  from assms(1) obtain added where "receiversOf st1 sig = receiversOf st sig @ added"
    unfolding evolves_def grown_def receiversOf_def by blast
  with assms(2) show "receiversOf st1 sig ! k = receiversOf st sig ! k"
    and "k < length (receiversOf st1 sig)"
    by (simp_all add: nth_append)
qed

lemma evolves_signal_back:
  assumes "evolves st st1" and "c < length (heap st)" and "signal (heap st1 ! c) = Some sig"
  shows "signal (heap st ! c) = Some sig"
  using assms unfolding evolves_def fades_def by fastforce

lemma wellFormed_receivers:
  "wellFormed st \<Longrightarrow> k < length (receiversOf st sig) \<Longrightarrow> receiversOf st sig ! k < length (heap st)"
  unfolding wellFormed_def receiversOf_def by (meson nth_mem)

lemma handleException_caught:
  assumes "handleException f env e s = Some (r, st2)" and "wellFormed s"
  shows "\<exists>more. caught st2 = caught s @ (exceptionHandler s, e) # more"
proof -
  let ?s1 = "s\<lparr>caught := caught s @ [(exceptionHandler s, e)]\<rparr>"
  from assms(1) have r: "run f env (handlerCode env (exceptionHandler s) e ?s1) ?s1 = Some (r, st2)"
    by (simp add: Let_def)
  from assms(2) have "wellFormed ?s1" by (simp add: wellFormed_caught)
  from keeps_run [OF this, of f env "handlerCode env (exceptionHandler s) e ?s1"] r
  have "evolves ?s1 st2" by (simp add: keeps_Some)
  then have "prefix (caught s @ [(exceptionHandler s, e)]) (caught st2)"
    by (simp add: evolves_def)
  then show ?thesis by (auto simp: prefix_def)
qed

lemma invokeSlot_routed:
  assumes "invokeSlot f env c x st = Some ((t, r), st1)" and "wellFormed st"
  shows "routed \<lparr>index = k, conn = c', thrown = t, after = st1\<rparr>"
proof (cases f)
  case 0
  with assms show ?thesis by simp
next
  case (Suc f')
  show ?thesis
  proof (cases "signal (heap st ! c)")
    case None
    with assms(1) Suc have "t = Some (''TypeError'', st)"
      and "handleException f' env ''TypeError'' st = Some (r, st1)"
      by (auto split: option.splits)
    with handleException_caught [OF _ assms(2)] show ?thesis
      by (auto simp: routed_def)
  next
    case (Some sig)
    let ?as = "slotCode env (slot (heap st ! c)) (context (heap st ! c)) (sender sig) x st"
    show ?thesis
    proof (cases "run f' env ?as st")
      case None
      with assms(1) Suc Some show ?thesis by simp
    next
      case run: (Some p)
      obtain q s where p: "p = (q, s)" by (cases p)
      from keeps_run [OF assms(2), of f' env ?as] run p have w: "wellFormed s" by (simp add: keeps_Some)
      show ?thesis
      proof (cases q)
        case None
        with assms(1) Suc Some run p show ?thesis by (simp add: routed_def)
      next
        case (Some e)
        with assms(1) Suc \<open>signal (heap st ! c) = Some sig\<close> run p
        have "t = Some (e, s)" and "handleException f' env e s = Some (r, st1)"
          by (auto split: option.splits)
        with handleException_caught [OF _ w] show ?thesis
          by (auto simp: routed_def)
      qed
    qed
  qed
qed

lemma invokeSlot_escaped:
  "invokeSlot f env c x st = Some ((t, Some e), st1) \<Longrightarrow> t \<noteq> None"
  by (cases f) (auto split: option.splits)

lemma subseq_set_mono_helper: "subseq xs ys \<Longrightarrow> set xs \<subseteq> set ys"
  by (induction rule: list_emb.induct) auto

lemma forEachReceiver_passOK:
  assumes "forEachReceiver f env sig x ks st = Some ((ds, r), st')"
    and "wellFormed st"
    and "\<forall>k \<in> set ks. k < length (receiversOf st sig)"
  shows "passOK sig st ks ds r st'"
  using assms
proof (induction ks arbitrary: ds st)
  case Nil
  then show ?case by (simp add: passOK_def)
next
  case (Cons k ks)
  from Cons.prems(3) have kin: "k < length (receiversOf st sig)"
    and ksin: "\<forall>k' \<in> set ks. k' < length (receiversOf st sig)" by simp_all
  from keeps_forEachReceiver [OF Cons.prems(2), of f env sig x "k # ks"] Cons.prems(1)
  have fin: "wellFormed st'" "evolves st st'" by (simp_all add: keeps_Some)
  show ?case
  proof (cases "live st sig k")
    case False
    from Cons.prems(1) have run: "forEachReceiver f env sig x ks st = Some ((ds, r), st')"
      by (simp only: forEachReceiver_skip [OF False])
    from Cons.IH [OF run Cons.prems(2) ksin] have ih: "passOK sig st ks ds r st'" .
    have "signal (heap st' ! (receiversOf st sig ! k)) \<noteq> Some sig"
    proof
      assume "signal (heap st' ! (receiversOf st sig ! k)) = Some sig"
      with evolves_signal_back [OF fin(2) wellFormed_receivers [OF Cons.prems(2) kin]]
      have "signal (heap st ! (receiversOf st sig ! k)) = Some sig" .
      with kin False show False by (simp add: live_def)
    qed
    with ih show ?thesis
      by (auto simp: passOK_def)
  next
    case True
    define c where "c = receiversOf st sig ! k"
    from Cons.prems(1) obtain t esc st1 where
      inv: "invokeSlot f env c x st = Some ((t, esc), st1)"
      unfolding forEachReceiver_invoke [OF True] c_def [symmetric]
      by (auto split: option.splits prod.splits)
    from keeps_invokeSlot [OF Cons.prems(2), of f env c x] inv
    have mid: "wellFormed st1" "evolves st st1" by (simp_all add: keeps_Some)
    define d0 where "d0 = \<lparr>index = k, conn = c, thrown = t, after = st1\<rparr>"
    have rd0: "routed d0" unfolding d0_def by (rule invokeSlot_routed [OF inv Cons.prems(2)])
    have live00: "signal (heap st ! c) = Some sig" using True by (simp add: live_def c_def)
    show ?thesis
    proof (cases esc)
      case (Some e)
      with Cons.prems(1) inv have ds: "ds = [d0]" and r: "r = Some e" and st': "st' = st1"
        unfolding forEachReceiver_invoke [OF True] c_def [symmetric] d0_def
        by auto
      from invokeSlot_escaped [OF inv [unfolded Some]] have "thrown d0 \<noteq> None"
        by (simp add: d0_def)
      with rd0 live00 show ?thesis
        unfolding passOK_def ds r st'
        by (simp add: d0_def c_def evolves_refl)
    next
      case None
      with Cons.prems(1) inv obtain ds' where
        rest: "forEachReceiver f env sig x ks st1 = Some ((ds', r), st')"
        and ds: "ds = d0 # ds'"
        unfolding forEachReceiver_invoke [OF True] c_def [symmetric] d0_def
        by (auto split: option.splits prod.splits)
      from keeps_forEachReceiver [OF mid(1), of f env sig x ks] rest
      have tail: "evolves st1 st'" by (simp add: keeps_Some)
      have ksin1: "\<forall>k' \<in> set ks. k' < length (receiversOf st1 sig)"
        using ksin evolves_receivers_nth(2) [OF mid(2)] by blast
      from Cons.IH [OF rest mid(1) ksin1] have ih: "passOK sig st1 ks ds' r st'" .
      have same: "receiversOf st1 sig ! k' = receiversOf st sig ! k'" if "k' \<in> set ks" for k'
        using that ksin evolves_receivers_nth(1) [OF mid(2)] by blast
      have idx: "index d \<in> set ks" if "d \<in> set ds'" for d
      proof -
        from ih have "subseq (map index ds') ks" by (simp add: passOK_def)
        then have "set (map index ds') \<subseteq> set ks" by (rule subseq_set_mono_helper)
        with that show ?thesis by auto
      qed
      have live1: "signal (heap st1 ! conn d) = Some sig" if "d \<in> set ds'" for d
        using ih that unfolding passOK_def by blast
      have conn1: "conn d = receiversOf st sig ! index d" if "d \<in> set ds'" for d
        using ih that same [OF idx [OF that]] unfolding passOK_def by metis
      have live0: "signal (heap st ! conn d) = Some sig" if "d \<in> set ds'" for d
      proof -
        from idx [OF that] ksin have "index d < length (receiversOf st sig)" by blast
        from wellFormed_receivers [OF Cons.prems(2) this] conn1 [OF that]
        have "conn d < length (heap st)" by simp
        from evolves_signal_back [OF mid(2) this live1 [OF that]] show ?thesis .
      qed
      have p1: "subseq (map index ds) (k # ks)"
        using ih by (simp add: ds passOK_def d0_def)
      have p2: "\<forall>d \<in> set ds. conn d = receiversOf st sig ! index d \<and>
          signal (heap st ! conn d) = Some sig \<and> routed d \<and> evolves (after d) st'"
        using live00 ih conn1 live0 rd0 tail
        by (auto simp: ds c_def passOK_def d0_def)
      have p3: "r = None \<longrightarrow> (\<forall>k' \<in> set (k # ks).
          signal (heap st' ! (receiversOf st sig ! k')) = Some sig \<longrightarrow> k' \<in> index ` set ds)"
      proof (intro impI ballI)
        fix k' assume rn: "r = None" and k': "k' \<in> set (k # ks)"
          and l: "signal (heap st' ! (receiversOf st sig ! k')) = Some sig"
        show "k' \<in> index ` set ds"
        proof (cases "k' = k")
          case True
          then show ?thesis by (simp add: ds d0_def)
        next
          case False
          with k' have in_ks: "k' \<in> set ks" by simp
          with l same have "signal (heap st' ! (receiversOf st1 sig ! k')) = Some sig" by simp
          with ih in_ks rn have "k' \<in> index ` set ds'" by (simp add: passOK_def)
          then show ?thesis by (auto simp: ds)
        qed
      qed
      have p4: "laterLive sig ds"
        using ih live1 by (simp add: ds passOK_def d0_def)
      have p5: "r \<noteq> None \<longrightarrow> ds \<noteq> [] \<and> thrown (last ds) \<noteq> None"
        using ih by (auto simp: ds passOK_def)
      from p1 p2 p3 p4 p5 show ?thesis unfolding passOK_def by blast
    qed
  qed
qed

lemmas sig_eval = throwing_def adding_def removing_def rethrowing_def connects_def connect_def newRegistry_def
  three_def testCode_def rethrowCode_def findConnection_def arrayOf_def receiverOf_def Let_def disconnect_def clear_def
  scheduleCleanup_def clean_def schedule_def newCleaner_def newScheduler_def upt_rec setExceptionHandler_def
  dispatched_def

subsection \<open>Emission\<close>

lemma subseq_sorted_wrt: "subseq xs ys \<Longrightarrow> sorted_wrt R ys \<Longrightarrow> sorted_wrt R xs"
proof (induction rule: list_emb.induct)
  case (list_emb_Nil ys)
  show ?case by simp
next
  case (list_emb_Cons xs ys y)
  then show ?case by simp
next
  case (list_emb_Cons2 x y xs ys)
  from list_emb_Cons2.hyps(2) have "set xs \<subseteq> set ys" by (rule subseq_set_mono_helper)
  with list_emb_Cons2 show ?case by auto
qed

lemma subseq_filter_eq:
  "subseq xs ys \<Longrightarrow> distinct ys \<Longrightarrow> set xs = {y \<in> set ys. P y} \<Longrightarrow> xs = filter P ys"
proof (induction ys arbitrary: xs)
  case Nil
  then show ?case by simp
next
  case (Cons y ys)
  show ?case
  proof (cases "P y")
    case True
    with Cons.prems(3) have yin: "y \<in> set xs" by auto
    then obtain x xs' where xs: "xs = x # xs'" by (cases xs) auto
    have "x = y"
    proof (rule ccontr)
      assume "x \<noteq> y"
      with Cons.prems(1) xs have "subseq xs ys" by (simp add: subseq_Cons2_neq)
      then have "set xs \<subseteq> set ys" by (rule subseq_set_mono_helper)
      with yin Cons.prems(2) show False by auto
    qed
    with Cons.prems(1) xs have sub: "subseq xs' ys" by simp
    then have "set xs' \<subseteq> set ys" by (rule subseq_set_mono_helper)
    with Cons.prems(2,3) xs \<open>x = y\<close> have "set xs' = {y' \<in> set ys. P y'}" by auto
    from Cons.IH [OF sub _ this] Cons.prems(2) have "xs' = filter P ys" by simp
    with True xs \<open>x = y\<close> show ?thesis by simp
  next
    case False
    with Cons.prems(3) have ynot: "y \<notin> set xs" by auto
    have sub: "subseq xs ys"
    proof (cases xs)
      case Nil
      then show ?thesis by simp
    next
      case (Cons x xs')
      with ynot have "x \<noteq> y" by auto
      with Cons.prems(1) Cons show ?thesis by (simp add: subseq_Cons2_neq)
    qed
    from Cons.prems(3) False have "set xs = {y' \<in> set ys. P y'}" by auto
    from Cons.IH [OF sub _ this] Cons.prems(2) have "xs = filter P ys" by simp
    with False show ?thesis by simp
  qed
qed

text \<open>
  With user code that does not emit, one level of slot invocation is all a call needs;
  with exception handlers that do not throw, no value leaves a call.
\<close>

lemma run_noEmit: "\<forall>a \<in> set as. \<forall>sig y. a \<noteq> Emit sig y \<Longrightarrow> run f env as st \<noteq> None"
proof (induction as arbitrary: st)
  case Nil
  show ?case by simp
next
  case (Cons a as)
  then show ?case by (cases a) simp_all
qed

lemma handleException_noEmit: "noEmit env \<Longrightarrow> handleException f env e st \<noteq> None"
  unfolding handleException.simps Let_def
  by (intro run_noEmit) (simp add: noEmit_def)

lemma invokeSlot_noEmit:
  assumes "noEmit env"
  shows "invokeSlot (Suc f) env c x st \<noteq> None"
proof (cases "signal (heap st ! c)")
  case None
  then show ?thesis
    by (auto simp del: handleException.simps simp add: handleException_noEmit [OF assms]
        split: option.splits)
next
  case (Some sig)
  from assms
  have "run f env (slotCode env (slot (heap st ! c)) (context (heap st ! c)) (sender sig) x st) st \<noteq> None"
    by (intro run_noEmit) (simp add: noEmit_def)
  with Some show ?thesis
    by (auto simp del: handleException.simps simp add: handleException_noEmit [OF assms]
        split: option.splits)
qed

lemma forEachReceiver_noEmit:
  assumes "noEmit env"
  shows "forEachReceiver (Suc f) env sig x ks st \<noteq> None"
proof (induction ks arbitrary: st)
  case Nil
  show ?case by simp
next
  case (Cons k ks)
  show ?case
  proof (cases "live st sig k")
    case False
    with Cons.IH show ?thesis by (simp only: forEachReceiver_skip [OF False]) simp
  next
    case True
    from invokeSlot_noEmit [OF assms] obtain t r st1
      where inv: "invokeSlot (Suc f) env (receiversOf st sig ! k) x st = Some ((t, r), st1)"
      by (metis not_None_eq prod.collapse)
    from Cons.IH obtain ds r' st2
      where rest: "forEachReceiver (Suc f) env sig x ks st1 = Some ((ds, r'), st2)"
      by (metis not_None_eq prod.collapse)
    from inv rest show ?thesis
      by (simp only: forEachReceiver_invoke [OF True]) (simp split: option.splits)
  qed
qed

lemma emit_noEmit:
  assumes "noEmit env"
  shows "emit (Suc f) env sig x st \<noteq> None"
proof (cases "receiversForSender st (sender sig)")
  case None
  then show ?thesis by simp
next
  case (Some receivers)
  with forEachReceiver_noEmit [OF assms, of f sig x "[0..<length receivers]" st]
  show ?thesis by simp
qed

lemma completes_None: "completes None"
  by (simp add: completes_def)

lemma completes_Some: "completes (Some (r, st)) \<longleftrightarrow> r = None"
  by (simp add: completes_def)

lemma contained_None: "contained None"
  by (simp add: contained_def)

lemma contained_Some: "contained (Some ((y, r), st)) \<longleftrightarrow> r = None"
  by (simp add: contained_def)

lemma calm_run:
    "calm env \<Longrightarrow> \<forall>a \<in> set as. \<forall>e. a \<noteq> Throw e \<Longrightarrow> completes (run f env as st)"
  and calm_emit: "calm env \<Longrightarrow> contained (emit f env sig x st)"
  and calm_forEachReceiver: "calm env \<Longrightarrow> contained (forEachReceiver f env sig x ks st)"
  and calm_invokeSlot: "calm env \<Longrightarrow> contained (invokeSlot f env c x st)"
  and calm_handleException: "calm env \<Longrightarrow> completes (handleException f env e st)"
proof (induction f env as st and f env sig x st and f env sig x ks st and f env c x st
    and f env e st rule: run_emit_forEachReceiver_invokeSlot_handleException.induct)
  case (1 f env st)
  show ?case by (simp add: completes_Some)
next
  case (2 f env c as st)
  then show ?case by simp
next
  case (3 f env e as st)
  then show ?case by simp
next
  case (4 f env sig x as st)
  show ?case
  proof (cases "emit f env sig x st")
    case None
    then show ?thesis by (simp add: completes_None)
  next
    case (Some p)
    obtain ds r st1 where p: "p = ((ds, r), st1)" by (cases p) auto
    from "4.IH"(1) [OF "4.prems"(1)] Some p have r: "r = None" by (simp add: contained_Some)
    from "4.IH"(2) [OF Some [unfolded p r] refl refl refl "4.prems"(1)] "4.prems"(2)
    have "completes (run f env as st1)" by simp
    with Some p r show ?thesis by simp
  qed
next
  case (5 f env sig x st)
  show ?case
  proof (cases "receiversForSender st (sender sig)")
    case None
    then show ?thesis by (simp add: contained_Some)
  next
    case (Some receivers)
    show ?thesis
    proof (cases "receivers = []")
      case True
      with Some show ?thesis by (simp add: contained_Some)
    next
      case False
      from "5.IH" [OF Some False "5.prems"] Some False show ?thesis by simp
    qed
  qed
next
  case (6 f env sig x st)
  show ?case by (simp add: contained_Some)
next
  case (7 f env sig x k ks st)
  define receivers where "receivers = arrayOf (receiversForSender st) (sender sig)"
  show ?case
  proof (cases "k < length receivers \<and> signal (heap st ! (receivers ! k)) = Some sig")
    case False
    then have nl: "\<not> live st sig k" by (simp add: live_def receiversOf_def receivers_def)
    from "7.IH"(3) [OF receivers_def False "7.prems"] show ?thesis
      by (simp only: forEachReceiver_skip [OF nl])
  next
    case True
    then have l: "live st sig k" by (simp add: live_def receiversOf_def receivers_def)
    have rs: "receiversOf st sig = receivers" by (simp add: receiversOf_def receivers_def)
    show ?thesis
    proof (cases "invokeSlot f env (receivers ! k) x st")
      case None
      then show ?thesis by (simp only: forEachReceiver_invoke [OF l] rs) (simp add: contained_None)
    next
      case (Some p)
      obtain t r st1 where p: "p = ((t, r), st1)" by (cases p) auto
      from "7.IH"(1) [OF receivers_def True "7.prems"] Some p have r: "r = None"
        by (simp add: contained_Some)
      from "7.IH"(2) [OF receivers_def True Some [unfolded p r] refl refl refl "7.prems"]
      have "contained (forEachReceiver f env sig x ks st1)" .
      with Some p r show ?thesis
        by (simp only: forEachReceiver_invoke [OF l] rs)
          (auto simp add: contained_def split: option.splits)
    qed
  qed
next
  case (8 env c x st)
  show ?case by (simp add: contained_None)
next
  case (9 f env c x st)
  show ?case
  proof (cases "signal (heap st ! c)")
    case None
    from "9.IH"(1) [OF None "9.prems"] None show ?thesis
      by (auto simp add: contained_def completes_def simp del: handleException.simps
          split: option.splits)
  next
    case (Some sig)
    let ?as = "slotCode env (slot (heap st ! c)) (context (heap st ! c)) (sender sig) x st"
    show ?thesis
    proof (cases "run f env ?as st")
      case None
      with Some show ?thesis by (simp add: contained_None)
    next
      case run: (Some p)
      obtain r st1 where p: "p = (r, st1)" by (cases p)
      show ?thesis
      proof (cases r)
        case None
        with Some run p show ?thesis by (simp add: contained_Some)
      next
        case e: (Some e)
        from "9.IH"(3) [OF Some run [unfolded p e] refl refl "9.prems"]
        have "completes (handleException f env e st1)" .
        with Some run p e show ?thesis
          by (auto simp add: contained_def completes_def simp del: handleException.simps
              split: option.splits)
      qed
    qed
  qed
next
  case (10 f env e st)
  let ?st1 = "st\<lparr>caught := caught st @ [(exceptionHandler st, e)]\<rparr>"
  from "10.prems" have "\<forall>a \<in> set (handlerCode env (exceptionHandler st) e ?st1). \<forall>e'. a \<noteq> Throw e'"
    by (simp add: calm_def)
  from "10.IH" [OF refl "10.prems" this] show ?case by (simp add: Let_def)
qed

lemma emit_passOK:
  assumes "wellFormed st" and "emit f env sig x st = Some ((ds, r), st')"
  shows "passOK sig st [0..<length (receiversOf st sig)] ds r st'"
proof (cases "receiversForSender st (sender sig)")
  case None
  with assms(2) show ?thesis by (auto simp add: passOK_def receiversOf_def arrayOf_def)
next
  case (Some receivers)
  then have rs: "receiversOf st sig = receivers" by (simp add: receiversOf_def arrayOf_def)
  show ?thesis
  proof (cases "receivers = []")
    case True
    with Some assms(2) rs show ?thesis by (auto simp add: passOK_def)
  next
    case False
    with Some assms(2)
    have "forEachReceiver f env sig x [0..<length receivers] st = Some ((ds, r), st')"
      by simp
    from forEachReceiver_passOK [OF this assms(1)] rs show ?thesis by simp
  qed
qed

lemma emit_keeps:
  assumes "wellFormed st" and "emit f env sig x st = Some ((ds, r), st')"
  shows "wellFormed st'" and "evolves st st'"
  using keeps_emit [OF assms(1), of f env sig x] assms(2) by (simp_all add: keeps_Some)

lemma forEachReceiver_chained:
  "forEachReceiver f env sig x ks st = Some ((ds, r), st') \<Longrightarrow> chained f env x st ds r"
proof (induction ks arbitrary: st ds r st')
  case Nil
  then show ?case by simp
next
  case (Cons k ks)
  let ?rs = "arrayOf (receiversForSender st) (sender sig)"
  show ?case
  proof (cases "k < length ?rs \<and> signal (heap st ! (?rs ! k)) = Some sig")
    case False
    with Cons.prems have "forEachReceiver f env sig x ks st = Some ((ds, r), st')"
      by (simp add: Let_def)
    from Cons.IH [OF this] show ?thesis .
  next
    case True
    with Cons.prems obtain t rr st1 where inv: "invokeSlot f env (?rs ! k) x st = Some ((t, rr), st1)"
      by (auto simp add: Let_def split: option.splits)
    show ?thesis
    proof (cases rr)
      case (Some e)
      with Cons.prems True inv
      have "ds = [\<lparr>index = k, conn = ?rs ! k, thrown = t, after = st1\<rparr>]" "r = Some e"
        by (auto simp add: Let_def)
      with inv Some show ?thesis by simp
    next
      case None
      with Cons.prems True inv obtain ds1 where
        rest: "forEachReceiver f env sig x ks st1 = Some ((ds1, r), st')"
        and ds: "ds = \<lparr>index = k, conn = ?rs ! k, thrown = t, after = st1\<rparr> # ds1"
        by (auto simp add: Let_def split: option.splits)
      from Cons.IH [OF rest] inv None ds show ?thesis by simp
    qed
  qed
qed

lemma emit_chained:
  assumes "emit f env sig x st = Some ((ds, r), st')"
  shows "chained f env x st ds r"
proof (cases "receiversForSender st (sender sig)")
  case None
  with assms show ?thesis by auto
next
  case (Some receivers)
  show ?thesis
  proof (cases "receivers = []")
    case True
    with Some assms show ?thesis by auto
  next
    case False
    with Some assms
    have "forEachReceiver f env sig x [0..<length receivers] st = Some ((ds, r), st')" by simp
    from forEachReceiver_chained [OF this] show ?thesis .
  qed
qed

lemma laterLive_drop:
  "laterLive sig ds \<Longrightarrow> i < length ds \<Longrightarrow> d' \<in> set (drop (Suc i) ds) \<Longrightarrow>
   signal (heap (after (ds ! i)) ! conn d') = Some sig"
proof (induction ds arbitrary: i)
  case Nil
  then show ?case by simp
next
  case (Cons d ds)
  then show ?case by (cases i) auto
qed


declare emit.simps [simp del]

lemma wellFormed_newRegistry: "wellFormed newRegistry"
  by (simp add: wellFormed_def newRegistry_def arrayOf_def)

lemma wellFormed_connects: "wellFormed st \<Longrightarrow> wellFormed (connects cs st)"
  unfolding connects_def
  by (induction cs arbitrary: st) (auto simp: wellFormed_connect)



text \<open>
  Claim C3. In a well-formed registry, when a call of \<^verbatim>\<open>emit\<close> ends (it returns, or a
  value thrown by an exception handler leaves it), the receivers array of the sender is
  the array the call started with followed by the connections added meanwhile, and none
  of the added connections has been invoked by this call; every connection invoked has
  an index below the length the array had when the call started, and it existed then. A
  successful \<^verbatim>\<open>connect\<close> puts the new connection, a new object of the store, at the
  end of the receivers array of the sender.
\<close>

theorem C3_added_not_dispatched:
  assumes "wellFormed st" and "emit f env sig x st = Some ((ds, r), st')"
  shows "(\<exists>added. receiversOf st' sig = receiversOf st sig @ added \<and>
            (\<forall>c \<in> set added. c \<notin> conn ` set ds)) \<and>
         (\<forall>d \<in> set ds. index d < length (receiversOf st sig) \<and> conn d < length (heap st)) \<and>
         (\<forall>s sl cx s'. connect sig sl cx s = (True, s') \<longrightarrow>
            receiversOf s' sig = receiversOf s sig @ [length (heap s)])"
proof -
  let ?rs = "receiversOf st sig"
  from emit_passOK [OF assms] have ok: "passOK sig st [0..<length ?rs] ds r st'" .
  then have sub: "subseq (map index ds) [0..<length ?rs]" by (simp add: passOK_def)
  from subseq_set_mono_helper [OF sub] have idx: "\<And>d. d \<in> set ds \<Longrightarrow> index d < length ?rs"
    by auto
  have old: "conn d < length (heap st)" if "d \<in> set ds" for d
  proof -
    from ok that have "conn d = ?rs ! index d" unfolding passOK_def by blast
    with wellFormed_receivers [OF assms(1) idx [OF that]] show ?thesis by simp
  qed
  from emit_keeps(2) [OF assms] obtain added
    where a: "receiversOf st' sig = ?rs @ added" "\<forall>c \<in> set added. length (heap st) \<le> c"
    unfolding evolves_def grown_def receiversOf_def by blast
  have "\<forall>c \<in> set added. c \<notin> conn ` set ds"
  proof
    fix c assume "c \<in> set added"
    with a(2) have "length (heap st) \<le> c" by simp
    with old show "c \<notin> conn ` set ds" by fastforce
  qed
  with a(1) have p1: "\<exists>added. receiversOf st' sig = ?rs @ added \<and>
            (\<forall>c \<in> set added. c \<notin> conn ` set ds)" by blast
  have p3: "receiversOf s' sig = receiversOf s sig @ [length (heap s)]"
    if "connect sig sl cx s = (True, s')" for s sl cx s'
    using connect_arrays(2) [OF that, of "sender sig"] by (simp add: receiversOf_def)
  from p1 idx old p3 show ?thesis by blast
qed

text \<open>
  The test "should not invoke signals added during emission": the third slot connects a
  fourth one for the same signal, which is in the array afterwards and has not run.
\<close>

theorem C3_witness:
  "wellFormed adding \<and>
   (\<exists>ds st'. emit (Suc 0) testCode three 0 adding = Some ((ds, None), st') \<and>
      receiversOf adding three = [0, 1, 2] \<and> receiversOf st' three = [0, 1, 2, 3] \<and>
      map conn ds = [0, 1, 2] \<and>
      (\<exists>added. receiversOf st' three = receiversOf adding three @ added \<and>
         (\<forall>c \<in> set added. c \<notin> conn ` set ds)))"
proof -
  have w: "wellFormed adding" unfolding adding_def by (intro wellFormed_connects wellFormed_newRegistry)
  have "\<exists>ds st'. emit (Suc 0) testCode three 0 adding = Some ((ds, None), st') \<and>
      receiversOf adding three = [0, 1, 2] \<and> receiversOf st' three = [0, 1, 2, 3] \<and>
      map conn ds = [0, 1, 2]"
    by (simp add: emit.simps adding_def connects_def connect_def newRegistry_def three_def
        testCode_def findConnection_def arrayOf_def receiverOf_def receiversOf_def Let_def upt_rec)
  then obtain ds st' where e: "emit (Suc 0) testCode three 0 adding = Some ((ds, None), st')"
    and v: "receiversOf adding three = [0, 1, 2]" "receiversOf st' three = [0, 1, 2, 3]"
      "map conn ds = [0, 1, 2]"
    by (elim exE conjE)
  from C3_added_not_dispatched [OF w e]
  have "\<exists>added. receiversOf st' three = receiversOf adding three @ added \<and>
         (\<forall>c \<in> set added. c \<notin> conn ` set ds)"
    by (rule conjunct1)
  with e v have "emit (Suc 0) testCode three 0 adding = Some ((ds, None), st') \<and>
      receiversOf adding three = [0, 1, 2] \<and> receiversOf st' three = [0, 1, 2, 3] \<and>
      map conn ds = [0, 1, 2] \<and>
      (\<exists>added. receiversOf st' three = receiversOf adding three @ added \<and>
         (\<forall>c \<in> set added. c \<notin> conn ` set ds))"
    by (intro conjI)
  then have "\<exists>ds st'. emit (Suc 0) testCode three 0 adding = Some ((ds, None), st') \<and>
      receiversOf adding three = [0, 1, 2] \<and> receiversOf st' three = [0, 1, 2, 3] \<and>
      map conn ds = [0, 1, 2] \<and>
      (\<exists>added. receiversOf st' three = receiversOf adding three @ added \<and>
         (\<forall>c \<in> set added. c \<notin> conn ` set ds))"
    by (intro exI)
  with w show ?thesis by (rule conjI)
qed

text \<open>
  Claim C4. In a well-formed registry, when a call of \<^verbatim>\<open>emit\<close> ends (it returns, or a
  value thrown by an exception handler leaves it): every connection it invoked was
  connected to the emitted signal when the call started; and a connection that is not
  connected to the signal right after the invocation number \<open>i\<close> of the pass (a slot
  up to that one has cleared it) is not among the connections invoked after that one. A
  successful \<^verbatim>\<open>disconnect\<close> clears the signal field of the connection it finds in the
  receivers array of the sender and leaves the array as it is.
\<close>

theorem C4_tombstoned_not_dispatched:
  assumes "wellFormed st"
  shows "(\<forall>ds r st'. emit f env sig x st = Some ((ds, r), st') \<longrightarrow>
            (\<forall>d \<in> set ds. signal (heap st ! conn d) = Some sig) \<and>
            (\<forall>i < length ds. \<forall>c. signal (heap (after (ds ! i)) ! c) \<noteq> Some sig \<longrightarrow>
               c \<notin> conn ` set (drop (Suc i) ds))) \<and>
         (\<forall>sl cx st1. disconnect sig sl cx st = (True, st1) \<longrightarrow>
            (\<exists>c \<in> set (receiversOf st sig).
               findConnection (heap st) (receiversOf st sig) sig sl cx = Some c \<and>
               signal (heap st1 ! c) = None \<and> receiversOf st1 sig = receiversOf st sig))"
proof (rule conjI)
  have "(\<forall>d \<in> set ds. signal (heap st ! conn d) = Some sig) \<and>
        (\<forall>i < length ds. \<forall>c. signal (heap (after (ds ! i)) ! c) \<noteq> Some sig \<longrightarrow>
               c \<notin> conn ` set (drop (Suc i) ds))"
    if e: "emit f env sig x st = Some ((ds, r), st')" for ds r st'
  proof -
    from emit_passOK [OF assms e]
    have ok: "passOK sig st [0..<length (receiversOf st sig)] ds r st'" .
    then have p1: "\<forall>d \<in> set ds. signal (heap st ! conn d) = Some sig"
      unfolding passOK_def by blast
    from ok have ll: "laterLive sig ds" by (simp add: passOK_def)
    have p2: "\<forall>i < length ds. \<forall>c. signal (heap (after (ds ! i)) ! c) \<noteq> Some sig \<longrightarrow>
               c \<notin> conn ` set (drop (Suc i) ds)"
      using laterLive_drop [OF ll] by blast
    from p1 p2 show ?thesis by blast
  qed
  then show "\<forall>ds r st'. emit f env sig x st = Some ((ds, r), st') \<longrightarrow>
            (\<forall>d \<in> set ds. signal (heap st ! conn d) = Some sig) \<and>
            (\<forall>i < length ds. \<forall>c. signal (heap (after (ds ! i)) ! c) \<noteq> Some sig \<longrightarrow>
               c \<notin> conn ` set (drop (Suc i) ds))"
    by blast
next
  have "\<exists>c \<in> set (receiversOf st sig).
               findConnection (heap st) (receiversOf st sig) sig sl cx = Some c \<and>
               signal (heap st1 ! c) = None \<and> receiversOf st1 sig = receiversOf st sig"
    if d: "disconnect sig sl cx st = (True, st1)" for sl cx st1
  proof -
    from d obtain receivers where r: "receiversForSender st (sender sig) = Some receivers"
      by (cases "receiversForSender st (sender sig)") (simp_all add: disconnect_def)
    from d r obtain c where fc: "findConnection (heap st) receivers sig sl cx = Some c"
      by (cases "findConnection (heap st) receivers sig sl cx")
        (simp_all add: disconnect_def split: if_splits)
    from d r fc have st1: "st1 = scheduleCleanup (SendersOf (receiverOf sl cx))
                      (scheduleCleanup (ReceiversOf (sender sig)) (st\<lparr>heap := clear c (heap st)\<rparr>))"
      by (simp add: disconnect_def split: if_splits)
    from r have rs: "receiversOf st sig = receivers" by (simp add: receiversOf_def arrayOf_def)
    from fc have cin: "c \<in> set receivers"
      unfolding findConnection_def by (auto simp: find_Some_iff)
    with assms rs have "c < length (heap st)" unfolding wellFormed_def receiversOf_def by metis
    then have "signal (heap st1 ! c) = None"
      by (simp add: st1 scheduleCleanup_fields clear_def)
    moreover have "receiversOf st1 sig = receiversOf st sig"
      by (simp add: st1 receiversOf_def scheduleCleanup_fields)
    ultimately show ?thesis using fc cin rs by auto
  qed
  then show "\<forall>sl cx st1. disconnect sig sl cx st = (True, st1) \<longrightarrow>
            (\<exists>c \<in> set (receiversOf st sig).
               findConnection (heap st) (receiversOf st sig) sig sl cx = Some c \<and>
               signal (heap st1 ! c) = None \<and> receiversOf st1 sig = receiversOf st sig)"
    by blast
qed

text \<open>
  The test "should not invoke signals removed during emission": the third slot
  disconnects the fourth one, which does not run.
\<close>

theorem C4_witness:
  "wellFormed removing \<and>
   (\<exists>ds st'. emit (Suc 0) testCode three 0 removing = Some ((ds, None), st') \<and>
      receiversOf removing three = [0, 1, 2, 3] \<and> map conn ds = [0, 1, 2] \<and>
      signal (heap (after (ds ! 2)) ! 3) = None \<and> 3 \<notin> conn ` set (drop 3 ds)) \<and>
   (\<exists>st1. disconnect three 10 (Some 3) removing = (True, st1) \<and> signal (heap st1 ! 3) = None)"
proof -
  have w: "wellFormed removing" unfolding removing_def by (intro wellFormed_connects wellFormed_newRegistry)
  have "\<exists>ds st'. emit (Suc 0) testCode three 0 removing = Some ((ds, None), st') \<and>
      receiversOf removing three = [0, 1, 2, 3] \<and> map conn ds = [0, 1, 2] \<and>
      signal (heap (after (ds ! 2)) ! 3) = None"
    by (simp add: emit.simps removing_def connects_def connect_def newRegistry_def three_def
        testCode_def findConnection_def arrayOf_def receiverOf_def receiversOf_def Let_def upt_rec
        disconnect_def clear_def scheduleCleanup_def clean_def schedule_def newCleaner_def
        newScheduler_def)
  then obtain ds st' where e: "emit (Suc 0) testCode three 0 removing = Some ((ds, None), st')"
    and v: "receiversOf removing three = [0, 1, 2, 3]" "map conn ds = [0, 1, 2]"
      "signal (heap (after (ds ! 2)) ! 3) = None"
    by (elim exE conjE)
  from v(2) have len: "2 < length ds" by (metis length_map length_Cons list.size(3) lessI numeral_2_eq_2 Suc_lessD)
  from C4_tombstoned_not_dispatched [OF w, of "Suc 0" testCode three 0] e
  have "\<forall>i < length ds. \<forall>c. signal (heap (after (ds ! i)) ! c) \<noteq> Some three \<longrightarrow>
               c \<notin> conn ` set (drop (Suc i) ds)"
    by blast
  with len have "\<forall>c. signal (heap (after (ds ! 2)) ! c) \<noteq> Some three \<longrightarrow>
               c \<notin> conn ` set (drop (Suc 2) ds)"
    by blast
  then have "signal (heap (after (ds ! 2)) ! 3) \<noteq> Some three \<longrightarrow>
               3 \<notin> conn ` set (drop (Suc 2) ds)"
    by blast
  with v(3) have "3 \<notin> conn ` set (drop (Suc 2) ds)" by simp
  then have n: "3 \<notin> conn ` set (drop 3 ds)" by (simp add: numeral_3_eq_3)
  have "fst (disconnect three 10 (Some 3) removing) = True"
    by (simp add: removing_def connects_def connect_def newRegistry_def three_def
        findConnection_def arrayOf_def receiverOf_def Let_def disconnect_def)
  then obtain st1 where d: "disconnect three 10 (Some 3) removing = (True, st1)"
    by (metis prod.collapse)
  from C4_tombstoned_not_dispatched [OF w, of "Suc 0" testCode three 0] d
  obtain c where c: "findConnection (heap removing) (receiversOf removing three) three 10 (Some 3) = Some c"
    "signal (heap st1 ! c) = None"
    by blast
  have "findConnection (heap removing) (receiversOf removing three) three 10 (Some 3) = Some 3"
    by (simp add: removing_def connects_def connect_def newRegistry_def three_def
        findConnection_def arrayOf_def receiverOf_def receiversOf_def Let_def)
  with c have "signal (heap st1 ! 3) = None" by simp
  with d have p3: "\<exists>st1. disconnect three 10 (Some 3) removing = (True, st1) \<and> signal (heap st1 ! 3) = None"
    by blast
  from e v n have "emit (Suc 0) testCode three 0 removing = Some ((ds, None), st') \<and>
      receiversOf removing three = [0, 1, 2, 3] \<and> map conn ds = [0, 1, 2] \<and>
      signal (heap (after (ds ! 2)) ! 3) = None \<and> 3 \<notin> conn ` set (drop 3 ds)"
    by (intro conjI)
  then have "\<exists>ds st'. emit (Suc 0) testCode three 0 removing = Some ((ds, None), st') \<and>
      receiversOf removing three = [0, 1, 2, 3] \<and> map conn ds = [0, 1, 2] \<and>
      signal (heap (after (ds ! 2)) ! 3) = None \<and> 3 \<notin> conn ` set (drop 3 ds)"
    by (intro exI)
  with w p3 show ?thesis by (intro conjI)
qed

subsection \<open>Connecting\<close>

lemma findConnection_matching:
  "findConnection (heap st) (receiversOf st sig) sig sl cx = None \<longleftrightarrow> matching st sig sl cx = []"
  by (auto simp add: findConnection_def matching_def find_None_iff filter_empty_conv)

lemma connect_duplicate:
  assumes "matching st sig sl cx \<noteq> []"
  shows "connect sig sl cx st = (False, st)"
proof -
  from assms have ne: "receiversOf st sig \<noteq> []" by (auto simp: matching_def)
  then obtain receivers where r: "receiversForSender st (sender sig) = Some receivers"
    by (cases "receiversForSender st (sender sig)") (simp_all add: receiversOf_def arrayOf_def)
  then have rs: "arrayOf (receiversForSender st) (sender sig) = receiversOf st sig"
    by (simp add: receiversOf_def)
  from assms obtain c where "findConnection (heap st) (receiversOf st sig) sig sl cx = Some c"
    using findConnection_matching [of st sig sl cx] by auto
  with r rs show ?thesis by (simp add: connect_def)
qed

lemma connect_fresh:
  assumes "matching st sig sl cx = []"
  shows "connect sig sl cx st =
     (True, st\<lparr>heap := heap st @ [\<lparr>signal = Some sig, slot = sl, context = cx\<rparr>],
         receiversForSender := (receiversForSender st)
            (sender sig \<mapsto> receiversOf st sig @ [length (heap st)]),
         sendersForReceiver := (sendersForReceiver st)
            (receiverOf sl cx \<mapsto> arrayOf (sendersForReceiver st) (receiverOf sl cx) @ [length (heap st)])\<rparr>)"
proof -
  from assms have f: "findConnection (heap st) (receiversOf st sig) sig sl cx = None"
    by (simp add: findConnection_matching)
  show ?thesis
  proof (cases "receiversForSender st (sender sig)")
    case None
    then have e: "receiversOf st sig = []" by (simp add: receiversOf_def arrayOf_def)
    show ?thesis
      by (cases "sendersForReceiver st (receiverOf sl cx)")
        (simp_all add: connect_def None e arrayOf_def findConnection_def Let_def)
  next
    case (Some receivers)
    then have e: "receiversOf st sig = receivers" by (simp add: receiversOf_def arrayOf_def)
    from f e have f': "findConnection (heap st) receivers sig sl cx = None" by simp
    show ?thesis
      by (cases "sendersForReceiver st (receiverOf sl cx)")
        (simp_all add: connect_def Some e arrayOf_def f' Let_def)
  qed
qed



section \<open>Properties of the message loop\<close>

text \<open>
  The equations that evaluate the scenarios.
\<close>

lemmas loop_eval =
  installs_def installMessageHook_def removeMessageHook_def cleanHooks_def clean_def schedule_def
  newLoop_def newCleaner_def newScheduler_def hooksOf_def sendMessage.simps Let_def
  handleLoopException.simps setLoopExceptionHandler_def
  Message_def ConflatableMessage_def plainConflate_def

lemmas queue_eval =
  posts_def postMessage_def enqueueMessage_def schedule_def unschedule_def candidate_def target_def
  clearData_def

subsection \<open>Posting\<close>

lemma conflateScan_reject:
  "\<not> accepts cf h m p \<Longrightarrow>
   conflateScan cf h m (p # ps) =
     (fst (conflateScan cf h m ps), consult cf h m p # snd (conflateScan cf h m ps))"
  by (auto simp: accepts_def consult_def candidate_def split: option.splits prod.splits)

lemma conflateScan_accept:
  "accepts cf h m p \<Longrightarrow> conflateScan cf h m (p # ps) = (True, consult cf h m p # ps)"
  by (auto simp: accepts_def consult_def candidate_def split: option.splits prod.splits)

lemma conflateScan_char:
  "conflateScan cf h m q =
     (case dropWhile (\<lambda>p. \<not> accepts cf h m p) q of
        [] \<Rightarrow> (False, map (consult cf h m) q)
      | p # ps \<Rightarrow>
          (True, map (consult cf h m) (takeWhile (\<lambda>p. \<not> accepts cf h m p) q) @ consult cf h m p # ps))"
proof (induction q)
  case Nil
  show ?case by simp
next
  case (Cons p q)
  show ?case
  proof (cases "accepts cf h m p")
    case True
    then show ?thesis by (simp add: conflateScan_accept del: conflateScan.simps)
  next
    case False
    show ?thesis
    proof (cases "dropWhile (\<lambda>p. \<not> accepts cf h m p) q")
      case Nil
      with False Cons.IH show ?thesis
        by (simp only: conflateScan_reject [OF False] dropWhile.simps list.map) simp
    next
      case (Cons p' ps')
      with False Cons.IH show ?thesis
        by (simp only: conflateScan_reject [OF False] dropWhile.simps takeWhile.simps list.map)
          simp
    qed
  qed
qed

lemma enqueueMessage_queue:
  "messageQueue (enqueueMessage h m st) =
     messageQueue st @ [\<lparr>pid = nextPid st, handler = Some h, msg = Some m\<rparr>]"
  by (simp add: enqueueMessage_def Let_def split: prod.splits)

lemma enqueueMessage_nextPid: "nextPid (enqueueMessage h m st) = Suc (nextPid st)"
  by (simp add: enqueueMessage_def Let_def split: prod.splits)

text \<open>
  Claim C6. A message that is not conflatable is appended to the queue as a new entry, and
  no entry of the queue is touched or asked. For a conflatable message the queue is
  scanned from the front. The entries before the first one that takes the message in have
  been passed: \<^verbatim>\<open>conflate\<close> has been called on those which are candidates (same
  handler, a message of the same type that is conflatable) and has returned \<^verbatim>\<open>false\<close>,
  and the others are as they were. If an entry takes the message in, the scan stops
  there: the entries behind it are as they were and nothing is appended. If no entry
  takes it in, the message is appended as a new entry.
\<close>

theorem C6_conflation_scan:
  "(\<not> isConflatable m \<longrightarrow>
      postMessage cf h m st = enqueueMessage h m st \<and>
      messageQueue (postMessage cf h m st) =
        messageQueue st @ [\<lparr>pid = nextPid st, handler = Some h, msg = Some m\<rparr>]) \<and>
   (isConflatable m \<longrightarrow>
      messageQueue (postMessage cf h m st) =
        (case dropWhile (\<lambda>p. \<not> accepts cf h m p) (messageQueue st) of
           [] \<Rightarrow> map (consult cf h m) (messageQueue st) @
                  [\<lparr>pid = nextPid st, handler = Some h, msg = Some m\<rparr>]
         | p # ps \<Rightarrow>
             map (consult cf h m) (takeWhile (\<lambda>p. \<not> accepts cf h m p) (messageQueue st)) @
             consult cf h m p # ps))"
proof (intro conjI impI)
  assume "\<not> isConflatable m"
  then show "postMessage cf h m st = enqueueMessage h m st" by (simp add: postMessage_def)
  then show "messageQueue (postMessage cf h m st) =
        messageQueue st @ [\<lparr>pid = nextPid st, handler = Some h, msg = Some m\<rparr>]"
    by (simp add: enqueueMessage_queue)
next
  assume c: "isConflatable m"
  show "messageQueue (postMessage cf h m st) =
        (case dropWhile (\<lambda>p. \<not> accepts cf h m p) (messageQueue st) of
           [] \<Rightarrow> map (consult cf h m) (messageQueue st) @
                  [\<lparr>pid = nextPid st, handler = Some h, msg = Some m\<rparr>]
         | p # ps \<Rightarrow>
             map (consult cf h m) (takeWhile (\<lambda>p. \<not> accepts cf h m p) (messageQueue st)) @
             consult cf h m p # ps)"
  proof (cases "dropWhile (\<lambda>p. \<not> accepts cf h m p) (messageQueue st)")
    case Nil
    then have "conflateScan cf h m (messageQueue st) = (False, map (consult cf h m) (messageQueue st))"
      by (simp only: conflateScan_char list.case)
    with c Nil show ?thesis
      by (simp only: postMessage_def Let_def list.case) (simp add: enqueueMessage_queue)
  next
    case (Cons p ps)
    then have "conflateScan cf h m (messageQueue st) =
        (True, map (consult cf h m) (takeWhile (\<lambda>p. \<not> accepts cf h m p) (messageQueue st)) @
               consult cf h m p # ps)"
      by (simp only: conflateScan_char list.case)
    with c Cons show ?thesis
      by (simp only: postMessage_def Let_def list.case) simp
  qed
qed

text \<open>
  A message that is not conflatable is appended. With two queued conflatable messages of
  states 1 and 2: a message of state 2 is refused by the first entry and taken in by the
  second one, and a message of state 3 is refused by both and appended.
\<close>

theorem C6_witness:
  "\<not> isConflatable (Message ''one'') \<and>
   messageQueue (postMessage samePayload 7 (Message ''one'') newLoop) =
     [\<lparr>pid = 0, handler = Some 7, msg = Some (Message ''one'')\<rparr>] \<and>
   isConflatable (Merging ''x'' 2) \<and>
   messageQueue (posts samePayload [(7, Merging ''x'' 1), (7, Merging ''x'' 2)] newLoop) =
     [\<lparr>pid = 0, handler = Some 7, msg = Some (Merging ''x'' 1)\<rparr>,
      \<lparr>pid = 1, handler = Some 7, msg = Some (Merging ''x'' 2)\<rparr>] \<and>
   messageQueue (postMessage samePayload 7 (Merging ''x'' 2)
      (posts samePayload [(7, Merging ''x'' 1), (7, Merging ''x'' 2)] newLoop)) =
     [\<lparr>pid = 0, handler = Some 7, msg = Some (Merging ''x'' 1)\<rparr>,
      \<lparr>pid = 1, handler = Some 7, msg = Some (Merging ''x'' 2)\<rparr>] \<and>
   messageQueue (postMessage samePayload 7 (Merging ''x'' 3)
      (posts samePayload [(7, Merging ''x'' 1), (7, Merging ''x'' 2)] newLoop)) =
     [\<lparr>pid = 0, handler = Some 7, msg = Some (Merging ''x'' 1)\<rparr>,
      \<lparr>pid = 1, handler = Some 7, msg = Some (Merging ''x'' 2)\<rparr>,
      \<lparr>pid = 2, handler = Some 7, msg = Some (Merging ''x'' 3)\<rparr>]"
proof -
  let ?st = "posts samePayload [(7, Merging ''x'' 1), (7, Merging ''x'' 2)] newLoop"
  have a: "\<not> isConflatable (Message ''one'')" by (simp add: Message_def)
  have b: "isConflatable (Merging ''x'' n)" for n by (simp add: Merging_def)
  have q: "messageQueue ?st =
     [\<lparr>pid = 0, handler = Some 7, msg = Some (Merging ''x'' 1)\<rparr>,
      \<lparr>pid = 1, handler = Some 7, msg = Some (Merging ''x'' 2)\<rparr>]"
    and n: "nextPid ?st = 2"
    by (simp_all add: queue_eval newLoop_def Merging_def samePayload_def Let_def newScheduler_def)
  from C6_conflation_scan [of "Message ''one''" samePayload 7 newLoop] a
  have "messageQueue (postMessage samePayload 7 (Message ''one'') newLoop) =
     messageQueue newLoop @ [\<lparr>pid = nextPid newLoop, handler = Some 7, msg = Some (Message ''one'')\<rparr>]"
    by blast
  then have r1: "messageQueue (postMessage samePayload 7 (Message ''one'') newLoop) =
     [\<lparr>pid = 0, handler = Some 7, msg = Some (Message ''one'')\<rparr>]"
    by (simp add: newLoop_def)
  from C6_conflation_scan [of "Merging ''x'' 2" samePayload 7 ?st] b
  have e2: "messageQueue (postMessage samePayload 7 (Merging ''x'' 2) ?st) =
      (case dropWhile (\<lambda>p. \<not> accepts samePayload 7 (Merging ''x'' 2) p) (messageQueue ?st) of
         [] \<Rightarrow> map (consult samePayload 7 (Merging ''x'' 2)) (messageQueue ?st) @
                [\<lparr>pid = nextPid ?st, handler = Some 7, msg = Some (Merging ''x'' 2)\<rparr>]
       | p # ps \<Rightarrow>
           map (consult samePayload 7 (Merging ''x'' 2))
             (takeWhile (\<lambda>p. \<not> accepts samePayload 7 (Merging ''x'' 2) p) (messageQueue ?st)) @
           consult samePayload 7 (Merging ''x'' 2) p # ps)"
    by blast
  have r2: "messageQueue (postMessage samePayload 7 (Merging ''x'' 2) ?st) =
     [\<lparr>pid = 0, handler = Some 7, msg = Some (Merging ''x'' 1)\<rparr>,
      \<lparr>pid = 1, handler = Some 7, msg = Some (Merging ''x'' 2)\<rparr>]"
    unfolding e2 q n
    by (simp add: accepts_def consult_def candidate_def Merging_def samePayload_def)
  from C6_conflation_scan [of "Merging ''x'' 3" samePayload 7 ?st] b
  have e3: "messageQueue (postMessage samePayload 7 (Merging ''x'' 3) ?st) =
      (case dropWhile (\<lambda>p. \<not> accepts samePayload 7 (Merging ''x'' 3) p) (messageQueue ?st) of
         [] \<Rightarrow> map (consult samePayload 7 (Merging ''x'' 3)) (messageQueue ?st) @
                [\<lparr>pid = nextPid ?st, handler = Some 7, msg = Some (Merging ''x'' 3)\<rparr>]
       | p # ps \<Rightarrow>
           map (consult samePayload 7 (Merging ''x'' 3))
             (takeWhile (\<lambda>p. \<not> accepts samePayload 7 (Merging ''x'' 3) p) (messageQueue ?st)) @
           consult samePayload 7 (Merging ''x'' 3) p # ps)"
    by blast
  have r3: "messageQueue (postMessage samePayload 7 (Merging ''x'' 3) ?st) =
     [\<lparr>pid = 0, handler = Some 7, msg = Some (Merging ''x'' 1)\<rparr>,
      \<lparr>pid = 1, handler = Some 7, msg = Some (Merging ''x'' 2)\<rparr>,
      \<lparr>pid = 2, handler = Some 7, msg = Some (Merging ''x'' 3)\<rparr>]"
    unfolding e3 q n
    by (simp add: accepts_def consult_def candidate_def Merging_def samePayload_def)
  from a r1 b [of 2] q r2 r3 show ?thesis by (intro conjI)
qed

subsection \<open>Sending through the hooks\<close>

lemma installed_append: "installed (xs @ ys) = installed xs @ installed ys"
  by (induction xs rule: installed.induct) simp_all

lemma installed_rev: "installed (rev xs) = rev (installed xs)"
  by (induction xs rule: installed.induct) (simp_all add: installed_append)

lemma set_installed: "set (installed xs) = {k. Some k \<in> set xs}"
  by (induction xs rule: installed.induct) auto

lemma not_passes: "\<not> passes r \<longleftrightarrow> r = Returned False"
  by (cases r) auto

lemma chainOK_Nil: "chainOK [] [] True None"
  by (simp add: chainOK_def)

lemma chainOK_veto: "chainOK (k # ks) [(k, Returned False)] False None"
proof -
  have "map fst [(k, Returned False)] = take (Suc 0) (k # ks)" by simp
  then have "\<exists>n. map fst [(k, Returned False)] = take n (k # ks)" by blast
  then show ?thesis by (simp add: chainOK_def)
qed

lemma chainOK_escape: "chainOK (k # ks) [(k, Threw e)] False (Some e')"
proof -
  have "map fst [(k, Threw e)] = take (Suc 0) (k # ks)" by simp
  then have "\<exists>n. map fst [(k, Threw e)] = take n (k # ks)" by blast
  then show ?thesis by (simp add: chainOK_def)
qed

lemma chainOK_Cons:
  assumes "chainOK ks rs passed r" and "passes res"
  shows "chainOK (k # ks) ((k, res) # rs) passed r"
proof -
  from assms(1) obtain n where n: "map fst rs = take n ks" unfolding chainOK_def by blast
  then have "map fst ((k, res) # rs) = take (Suc n) (k # ks)" by simp
  then have p1: "\<exists>n. map fst ((k, res) # rs) = take n (k # ks)" by blast
  have p2: "\<forall>i. Suc i < length ((k, res) # rs) \<longrightarrow> passes (snd (((k, res) # rs) ! i))"
  proof (intro allI impI)
    fix i assume "Suc i < length ((k, res) # rs)"
    with assms show "passes (snd (((k, res) # rs) ! i))"
      unfolding chainOK_def by (cases i) auto
  qed
  from assms have p3: "passed \<longrightarrow> r = None \<and> map fst ((k, res) # rs) = k # ks \<and>
      (\<forall>x \<in> set ((k, res) # rs). passes (snd x))"
    unfolding chainOK_def by auto
  from assms(1) have p4: "\<not> passed \<longrightarrow> (k, res) # rs \<noteq> [] \<and>
      (r = None \<longrightarrow> snd (last ((k, res) # rs)) = Returned False) \<and>
      (r \<noteq> None \<longrightarrow> (\<exists>e. snd (last ((k, res) # rs)) = Threw e))"
    unfolding chainOK_def by auto
  from p1 p2 p3 p4 show ?thesis unfolding chainOK_def by blast
qed

lemma invokeHook_escaped:
  "invokeHook f env k h m st = Some ((res, Some e), st1) \<Longrightarrow> \<exists>e'. res = Threw e'"
  by (cases f) (auto simp: Let_def simp del: handleLoopException.simps split: option.splits)

lemma invokeHandler_escaped:
  "invokeHandler f env h m st = Some ((t, Some e), st1) \<Longrightarrow> \<exists>e'. t = Some e'"
  by (cases f) (auto simp: Let_def simp del: handleLoopException.simps split: option.splits)

lemma everyHook_chainOK:
  "everyHook f env h m hooks st = Some (((rs, passed), r), st') \<Longrightarrow>
   chainOK (installed hooks) rs passed r"
proof (induction hooks arbitrary: st rs passed)
  case Nil
  then show ?case by (simp add: chainOK_Nil)
next
  case (Cons hook hooks)
  show ?case
  proof (cases hook)
    case None
    with Cons show ?thesis by simp
  next
    case (Some k)
    with Cons.prems obtain res esc st1
      where inv: "invokeHook f env k h m st = Some ((res, esc), st1)"
      by (cases "invokeHook f env k h m st") auto
    show ?thesis
    proof (cases esc)
      case e: (Some e)
      with Cons.prems Some inv have "rs = [(k, res)]" "passed = False" "r = Some e" by simp_all
      moreover from invokeHook_escaped [OF inv [unfolded e]] obtain e' where "res = Threw e'" ..
      ultimately show ?thesis using Some by (simp add: chainOK_escape)
    next
      case None
      show ?thesis
      proof (cases "passes res")
        case False
        with Cons.prems Some inv None have "rs = [(k, res)]" "passed = False" "r = None"
          by simp_all
        moreover from False have "res = Returned False" by (simp add: not_passes)
        ultimately show ?thesis using Some by (simp add: chainOK_veto)
      next
        case True
        with Cons.prems Some inv None obtain rs' where
          rest: "everyHook f env h m hooks st1 = Some (((rs', passed), r), st')"
          and rs: "rs = (k, res) # rs'"
          by (cases "everyHook f env h m hooks st1") auto
        from Cons.IH [OF rest] have "chainOK (installed hooks) rs' passed r" .
        from chainOK_Cons [OF this True] rs Some show ?thesis by simp
      qed
    qed
  qed
qed

lemma sendMessage_chainOK:
  assumes "sendMessage f env h m st = Some ((obs, r), st')"
  shows "chainOK (rev (installed (hooksOf st h))) (hooksRun obs) (handled obs \<noteq> None)
           (if handled obs = None then r else None) \<and>
         (handled obs \<noteq> None \<and> r \<noteq> None \<longrightarrow> (\<exists>e. handled obs = Some (Some e)))"
proof -
  have direct: ?thesis
    if i: "invokeHandler f env h m st = Some ((t, r), st')"
      and o: "obs = \<lparr>hooksRun = [], handled = Some t\<rparr>" and n: "installed (hooksOf st h) = []"
    for t
  proof -
    have "r \<noteq> None \<longrightarrow> (\<exists>e. t = Some e)"
      using invokeHandler_escaped [of f env h m st t _ st'] i by auto
    with o n show ?thesis by (simp add: chainOK_Nil)
  qed
  show ?thesis
  proof (cases "messageHooks st h")
    case None
    with assms obtain t where "invokeHandler f env h m st = Some ((t, r), st')"
      and "obs = \<lparr>hooksRun = [], handled = Some t\<rparr>"
      by (auto split: option.splits)
    moreover from None have "installed (hooksOf st h) = []" by (simp add: hooksOf_def)
    ultimately show ?thesis by (rule direct)
  next
    case (Some hooks)
    show ?thesis
    proof (cases "hooks = []")
      case True
      with Some assms obtain t where "invokeHandler f env h m st = Some ((t, r), st')"
        and "obs = \<lparr>hooksRun = [], handled = Some t\<rparr>"
        by (auto split: option.splits)
      moreover from Some True have "installed (hooksOf st h) = []" by (simp add: hooksOf_def)
      ultimately show ?thesis by (rule direct)
    next
      case False
      with Some assms obtain rs passed esc st1 where
        e: "everyHook f env h m (rev hooks) st = Some (((rs, passed), esc), st1)"
        by (cases "everyHook f env h m (rev hooks) st") auto
      from everyHook_chainOK [OF e] have c: "chainOK (rev (installed hooks)) rs passed esc"
        by (simp add: installed_rev)
      show ?thesis
      proof (cases esc)
        case x: (Some x)
        with Some False assms e have o: "obs = \<lparr>hooksRun = rs, handled = None\<rparr>" and r: "r = Some x"
          by simp_all
        from c x have "\<not> passed" by (auto simp: chainOK_def)
        with c o r x Some show ?thesis by (simp add: hooksOf_def)
      next
        case None
        show ?thesis
        proof (cases passed)
          case True
          with Some False assms e None obtain t
            where i: "invokeHandler f env h m st1 = Some ((t, r), st')"
              and o: "obs = \<lparr>hooksRun = rs, handled = Some t\<rparr>"
            by (cases "invokeHandler f env h m st1") auto
          have "r \<noteq> None \<longrightarrow> (\<exists>e. t = Some e)"
            using invokeHandler_escaped [of f env h m st1 t _ st'] i by auto
          with c True o None Some show ?thesis by (simp add: hooksOf_def)
        next
          case f: False
          with Some False assms e None have "obs = \<lparr>hooksRun = rs, handled = None\<rparr>" "r = None"
            by simp_all
          with c f None Some show ?thesis by (simp add: hooksOf_def)
        qed
      qed
    qed
  qed
qed

declare sendMessage.simps [simp del] flush.simps [simp del] runMessageLoop.simps [simp del]
  handleLoopException.simps [simp del]

subsection \<open>The record of calls\<close>

text \<open>
  No function of the module removes anything from the record of the calls of user code.
\<close>

lemma logs_None: "logs st None"
  by (simp add: logs_def)

lemma logs_Some: "logs st (Some (y, st')) \<longleftrightarrow> prefix (trace st) (trace st')"
  by (simp add: logs_def)

lemma logs_step: "prefix (trace st) (trace s1) \<Longrightarrow> logs s1 res \<Longrightarrow> logs st res"
  by (auto simp: logs_def split: option.splits)

lemma logs_same: "trace s1 = trace st \<Longrightarrow> logs s1 res \<Longrightarrow> logs st res"
  by (auto simp: logs_def split: option.splits)

lemma enqueueMessage_trace: "trace (enqueueMessage h m st) = trace st"
  by (simp add: enqueueMessage_def Let_def split: prod.splits)

lemma postMessage_trace: "trace (postMessage cf h m st) = trace st"
  by (simp add: postMessage_def enqueueMessage_trace Let_def split: prod.splits)

lemma cleanHooks_trace: "trace (cleanHooks h st) = trace st"
  by (simp add: cleanHooks_def split: prod.splits)

lemma performL_trace: "trace (performL cf c st) = trace st"
  by (cases c)
    (simp_all add: postMessage_trace installMessageHook_def removeMessageHook_def clearData_def
      cleanHooks_trace setLoopExceptionHandler_def Let_def split: option.splits)

lemma logs_runL: "logs st (runL f env as st)"
  and logs_sendMessage: "logs st (sendMessage f env h m st)"
  and logs_everyHook: "logs st (everyHook f env h m hooks st)"
  and logs_invokeHook: "logs st (invokeHook f env k h m st)"
  and logs_invokeHandler: "logs st (invokeHandler f env h m st)"
  and logs_handleLoopException: "logs st (handleLoopException f env e st)"
  and logs_flush: "logs st (flush f env st)"
  and logs_runMessageLoop: "logs st (runMessageLoop f env st)"
  and logs_drain: "logs st (drain f env s st)"
proof (induction f env as st and f env h m st and f env h m hooks st and f env k h m st
    and f env h m st and f env e st and f env st and f env st and f env s st
    rule: runL_sendMessage_everyHook_invokeHook_invokeHandler_handleLoopException_flush_runMessageLoop_drain.induct)
  case (1 f env st)
  show ?case by (simp add: logs_Some)
next
  case (2 f env c as st)
  from "2.IH" have "logs (performL (conflate env) c st) (runL f env as (performL (conflate env) c st))" .
  then have "logs st (runL f env as (performL (conflate env) c st))"
    by (rule logs_same [OF performL_trace])
  then show ?case by simp
next
  case (3 f env e as st)
  show ?case by (simp add: logs_Some)
next
  case (4 f env h m as st)
  show ?case
  proof (cases "sendMessage f env h m st")
    case None
    then show ?thesis by (simp add: logs_None)
  next
    case (Some p)
    obtain obs r st1 where p: "p = ((obs, r), st1)" by (cases p) auto
    from "4.IH"(1) Some p have g: "prefix (trace st) (trace st1)" by (simp add: logs_Some)
    show ?thesis
    proof (cases r)
      case e: (Some e)
      with Some p g show ?thesis by (simp add: logs_Some)
    next
      case None
      from "4.IH"(2) [OF Some [unfolded p None] refl refl refl]
      have "logs st1 (runL f env as st1)" .
      with g have "logs st (runL f env as st1)" by (rule logs_step)
      with Some p None show ?thesis by simp
    qed
  qed
next
  case (5 f env as st)
  show ?case
  proof (cases "flush f env st")
    case None
    then show ?thesis by (simp add: logs_None)
  next
    case (Some p)
    obtain r st1 where p: "p = (r, st1)" by (cases p)
    from "5.IH"(1) Some p have g: "prefix (trace st) (trace st1)" by (simp add: logs_Some)
    show ?thesis
    proof (cases r)
      case e: (Some e)
      with Some p g show ?thesis by (simp add: logs_Some)
    next
      case None
      from "5.IH"(2) [OF Some [unfolded p None] refl refl]
      have "logs st1 (runL f env as st1)" .
      with g have "logs st (runL f env as st1)" by (rule logs_step)
      with Some p None show ?thesis by simp
    qed
  qed
next
  case (6 f env h m st)
  show ?case
  proof (cases "messageHooks st h")
    case None
    from "6.IH"(1) [OF None] None show ?thesis
      by (auto simp: sendMessage.simps logs_def split: option.splits)
  next
    case (Some hooks)
    show ?thesis
    proof (cases "hooks = []")
      case True
      from "6.IH"(2) [OF Some True] Some True show ?thesis
        by (auto simp: sendMessage.simps logs_def split: option.splits)
    next
      case False
      show ?thesis
      proof (cases "everyHook f env h m (rev hooks) st")
        case None
        with Some False show ?thesis by (simp add: sendMessage.simps logs_None)
      next
        case q: (Some q)
        obtain rs passed r st1 where q': "q = (((rs, passed), r), st1)" by (cases q) auto
        from "6.IH"(3) [OF Some False] q q'
        have g: "prefix (trace st) (trace st1)" by (simp add: logs_Some)
        show ?thesis
        proof (cases "r = None \<and> passed")
          case False
          with Some \<open>hooks \<noteq> []\<close> q q' g show ?thesis
            by (auto simp: sendMessage.simps logs_Some split: option.splits)
        next
          case True
          then have r: "r = None" and pa: passed by simp_all
          from "6.IH"(4) [OF Some \<open>hooks \<noteq> []\<close> q [unfolded q' r] refl refl refl refl pa]
          have "logs st1 (invokeHandler f env h m st1)" .
          with g have "logs st (invokeHandler f env h m st1)" by (rule logs_step)
          with Some \<open>hooks \<noteq> []\<close> q q' r pa show ?thesis
            by (auto simp: sendMessage.simps logs_def split: option.splits)
        qed
      qed
    qed
  qed
next
  case (7 f env h m st)
  show ?case by (simp add: logs_Some)
next
  case (8 f env h m hooks st)
  then show ?case by simp
next
  case (9 f env h m hook hooks st)
  show ?case
  proof (cases "invokeHook f env hook h m st")
    case None
    then show ?thesis by (simp add: logs_None)
  next
    case (Some p)
    obtain res r st1 where p: "p = ((res, r), st1)" by (cases p) auto
    from "9.IH"(1) Some p have g: "prefix (trace st) (trace st1)" by (simp add: logs_Some)
    show ?thesis
    proof (cases "r = None \<and> passes res")
      case False
      with Some p g show ?thesis by (auto simp: logs_Some split: option.splits)
    next
      case True
      then have r: "r = None" and pa: "passes res" by simp_all
      from "9.IH"(2) [OF Some [unfolded p r] refl refl refl pa]
      have "logs st1 (everyHook f env h m hooks st1)" .
      with g have "logs st (everyHook f env h m hooks st1)" by (rule logs_step)
      with Some p r pa show ?thesis
        by (auto simp: logs_def split: option.splits)
    qed
  qed
next
  case (10 env hook h m st)
  show ?case by (simp add: logs_None)
next
  case (11 f env hook h m st)
  let ?st0 = "st\<lparr>trace := trace st @ [HookCall hook h m]\<rparr>"
  let ?as = "fst (messageHook env hook h m ?st0)"
  have g0: "prefix (trace st) (trace ?st0)" by simp
  show ?case
  proof (cases "runL f env ?as ?st0")
    case None
    then show ?thesis by (simp add: Let_def logs_None)
  next
    case (Some p)
    obtain r st1 where p: "p = (r, st1)" by (cases p)
    from "11.IH"(1) [OF refl] Some p have g1: "prefix (trace ?st0) (trace st1)"
      by (simp add: logs_Some)
    with g0 have g: "prefix (trace st) (trace st1)" by (rule prefix_order.trans)
    show ?thesis
    proof (cases r)
      case None
      with Some p g show ?thesis by (simp add: Let_def logs_Some)
    next
      case e: (Some e)
      from "11.IH"(2) [OF refl Some [unfolded p e] refl refl]
      have "logs st1 (handleLoopException f env e st1)" .
      with g have "logs st (handleLoopException f env e st1)" by (rule logs_step)
      with Some p e show ?thesis
        by (auto simp: Let_def logs_def split: option.splits)
    qed
  qed
next
  case (12 env h m st)
  show ?case by (simp add: logs_None)
next
  case (13 f env h m st)
  let ?st0 = "st\<lparr>trace := trace st @ [HandlerCall h m]\<rparr>"
  let ?as = "processMessage env h m ?st0"
  have g0: "prefix (trace st) (trace ?st0)" by simp
  show ?case
  proof (cases "runL f env ?as ?st0")
    case None
    then show ?thesis by (simp add: Let_def logs_None)
  next
    case (Some p)
    obtain r st1 where p: "p = (r, st1)" by (cases p)
    from "13.IH"(1) [OF refl] Some p have g1: "prefix (trace ?st0) (trace st1)"
      by (simp add: logs_Some)
    with g0 have g: "prefix (trace st) (trace st1)" by (rule prefix_order.trans)
    show ?thesis
    proof (cases r)
      case None
      with Some p g show ?thesis by (simp add: Let_def logs_Some)
    next
      case e: (Some e)
      from "13.IH"(2) [OF refl Some [unfolded p e] refl refl]
      have "logs st1 (handleLoopException f env e st1)" .
      with g have "logs st (handleLoopException f env e st1)" by (rule logs_step)
      with Some p e show ?thesis
        by (auto simp: Let_def logs_def split: option.splits)
    qed
  qed
next
  case (14 f env e st)
  let ?st1 = "st\<lparr>trace := trace st @ [ErrorCall (loopExceptionHandler st) e]\<rparr>"
  have g0: "prefix (trace st) (trace ?st1)" by simp
  from "14.IH" [OF refl] have "logs ?st1 (runL f env (onError env (loopExceptionHandler st) e ?st1) ?st1)" .
  with g0 have "logs st (runL f env (onError env (loopExceptionHandler st) e ?st1) ?st1)"
    by (rule logs_step)
  then show ?case by (simp add: handleLoopException.simps Let_def)
next
  case (15 f env st)
  show ?case
  proof (cases "loopFlushGuard st \<or> loopTaskID st = 0")
    case True
    then show ?thesis by (auto simp add: flush.simps logs_Some)
  next
    case False
    let ?st0 = "st\<lparr>loopHost := unschedule (loopTaskID st) (loopHost st), loopFlushGuard := True\<rparr>"
    from "15.IH" [OF False] have "logs ?st0 (runMessageLoop f env ?st0)" .
    then have "logs st (runMessageLoop f env ?st0)" by (rule logs_same [rotated]) simp
    with False show ?thesis
      by (auto simp: flush.simps logs_def split: option.splits)
  qed
next
  case (16 f env st)
  let ?st1 = "st\<lparr>loopTaskID := 0\<rparr>"
  show ?case
  proof (cases "messageQueue st = []")
    case True
    then show ?thesis by (simp add: runMessageLoop.simps logs_Some)
  next
    case False
    let ?st2 = "?st1\<lparr>messageQueue := messageQueue ?st1 @ [\<lparr>pid = nextPid ?st1, handler = None, msg = None\<rparr>],
                     nextPid := Suc (nextPid ?st1)\<rparr>"
    from False "16.IH" [OF refl] have "logs ?st2 (drain f env (nextPid ?st1) ?st2)" by simp
    then have "logs st (drain f env (nextPid ?st1) ?st2)" by (rule logs_same [rotated]) simp
    with False show ?thesis by (simp add: runMessageLoop.simps Let_def)
  qed
next
  case (17 env sentinel st)
  show ?case by (simp add: logs_None)
next
  case (18 f env sentinel st)
  show ?case
  proof (cases "messageQueue st")
    case Nil
    then show ?thesis by (simp add: logs_Some)
  next
    case (Cons p q)
    let ?st0 = "st\<lparr>messageQueue := q\<rparr>"
    have t0: "trace ?st0 = trace st" by simp
    show ?thesis
    proof (cases "pid p = sentinel")
      case True
      with Cons show ?thesis by (simp add: logs_Some)
    next
      case False
      show ?thesis
      proof (cases "target p")
        case None
        from "18.IH"(1) [OF Cons False None] have "logs ?st0 (drain f env sentinel ?st0)" .
        then have "logs st (drain f env sentinel ?st0)" by (rule logs_same [OF t0])
        with Cons False None show ?thesis
          by (auto simp: logs_def split: option.splits)
      next
        case (Some hm)
        obtain h m where hm: "hm = (h, m)" by (cases hm)
        from "18.IH"(2) [OF Cons False Some hm [symmetric]]
        have "logs ?st0 (sendMessage f env h m ?st0)" .
        then have ls: "logs st (sendMessage f env h m ?st0)" by (rule logs_same [OF t0])
        show ?thesis
        proof (cases "sendMessage f env h m ?st0")
          case None
          with Cons False Some hm show ?thesis by (simp add: logs_None)
        next
          case s: (Some x)
          obtain obs r st1 where x: "x = ((obs, r), st1)" by (cases x) auto
          from ls s x have g: "prefix (trace st) (trace st1)" by (simp add: logs_Some)
          show ?thesis
          proof (cases r)
            case e: (Some e)
            with Cons False Some hm s x g show ?thesis by (simp add: logs_Some)
          next
            case None
            from "18.IH"(3) [OF Cons False Some hm [symmetric] s [unfolded x None] refl refl refl]
            have "logs st1 (drain f env sentinel st1)" .
            with g have "logs st (drain f env sentinel st1)" by (rule logs_step)
            with Cons False Some hm s x None show ?thesis
              by (auto simp: logs_def split: option.splits)
          qed
        qed
      qed
    qed
  qed
qed

subsection \<open>The hook chain\<close>

text \<open>
  With user code that calls no function running user code, \<^verbatim>\<open>sendMessage\<close> ends with
  depth one; with exception handlers that do not throw, it returns.
\<close>

lemma runL_quiet:
  "\<forall>a \<in> set as. (\<exists>c. a = Do c) \<or> (\<exists>e. a = Raise e) \<Longrightarrow> runL f env as st \<noteq> None"
proof (induction as arbitrary: st)
  case Nil
  show ?case by simp
next
  case (Cons a as)
  then show ?case by (cases a) auto
qed

lemma runL_calm:
  "\<forall>a \<in> set as. \<exists>c. a = Do c \<Longrightarrow> runL f env as st = Some (r, st') \<Longrightarrow> r = None"
proof (induction as arbitrary: st)
  case Nil
  then show ?case by simp
next
  case (Cons a as)
  then show ?case by (cases a) auto
qed

lemma handleLoopException_quiet: "quiet env \<Longrightarrow> handleLoopException f env e st \<noteq> None"
  unfolding handleLoopException.simps Let_def
  by (intro runL_quiet) (simp add: quiet_def)

lemma handleLoopException_calm:
  assumes "calmLoop env" and "handleLoopException f env e st = Some (r, st')"
  shows "r = None"
proof -
  let ?s1 = "st\<lparr>trace := trace st @ [ErrorCall (loopExceptionHandler st) e]\<rparr>"
  from assms(2) have "runL f env (onError env (loopExceptionHandler st) e ?s1) ?s1 = Some (r, st')"
    by (simp add: handleLoopException.simps Let_def)
  moreover from assms(1) have "\<forall>a \<in> set (onError env (loopExceptionHandler st) e ?s1). \<exists>c. a = Do c"
    by (simp add: calmLoop_def)
  ultimately show ?thesis using runL_calm by blast
qed

lemma invokeHook_quiet:
  assumes "quiet env"
  shows "invokeHook (Suc f) env k h m st \<noteq> None"
proof -
  let ?st0 = "st\<lparr>trace := trace st @ [HookCall k h m]\<rparr>"
  from assms have "runL f env (fst (messageHook env k h m ?st0)) ?st0 \<noteq> None"
    by (intro runL_quiet) (simp add: quiet_def)
  then show ?thesis
    by (auto simp: Let_def handleLoopException_quiet [OF assms] split: option.splits)
qed

lemma invokeHandler_quiet:
  assumes "quiet env"
  shows "invokeHandler (Suc f) env h m st \<noteq> None"
proof -
  let ?st0 = "st\<lparr>trace := trace st @ [HandlerCall h m]\<rparr>"
  from assms have "runL f env (processMessage env h m ?st0) ?st0 \<noteq> None"
    by (intro runL_quiet) (simp add: quiet_def)
  then show ?thesis
    by (auto simp: Let_def handleLoopException_quiet [OF assms] split: option.splits)
qed

lemma invokeHook_calm:
  assumes "calmLoop env" and "invokeHook f env k h m st = Some ((res, r), st')"
  shows "r = None"
proof (cases f)
  case 0
  with assms(2) show ?thesis by simp
next
  case (Suc f')
  with assms(2) handleLoopException_calm [OF assms(1)] show ?thesis
    by (auto simp: Let_def split: option.splits)
qed

lemma invokeHandler_calm:
  assumes "calmLoop env" and "invokeHandler f env h m st = Some ((t, r), st')"
  shows "r = None"
proof (cases f)
  case 0
  with assms(2) show ?thesis by simp
next
  case (Suc f')
  with assms(2) handleLoopException_calm [OF assms(1)] show ?thesis
    by (auto simp: Let_def split: option.splits)
qed

lemma everyHook_quiet:
  assumes "quiet env"
  shows "everyHook (Suc f) env h m hooks st \<noteq> None"
proof (induction hooks arbitrary: st)
  case Nil
  show ?case by simp
next
  case (Cons hook hooks)
  show ?case
  proof (cases hook)
    case None
    with Cons show ?thesis by simp
  next
    case (Some k)
    from invokeHook_quiet [OF assms, of f k h m st] obtain res r st1
      where i: "invokeHook (Suc f) env k h m st = Some ((res, r), st1)" by auto
    from Cons [of st1] obtain rs passed r' st2
      where "everyHook (Suc f) env h m hooks st1 = Some (((rs, passed), r'), st2)" by auto
    with Some i show ?thesis
      by (cases r; cases "passes res") (simp_all del: invokeHook.simps)
  qed
qed

lemma everyHook_calm:
  assumes "calmLoop env"
  shows "everyHook f env h m hooks st = Some (((rs, passed), r), st') \<Longrightarrow> r = None"
proof (induction hooks arbitrary: st rs)
  case Nil
  then show ?case by simp
next
  case (Cons hook hooks)
  show ?case
  proof (cases hook)
    case None
    with Cons show ?thesis by simp
  next
    case (Some k)
    with Cons.prems obtain res esc st1
      where i: "invokeHook f env k h m st = Some ((res, esc), st1)"
      by (cases "invokeHook f env k h m st") auto
    from invokeHook_calm [OF assms i] have esc: "esc = None" .
    show ?thesis
    proof (cases "passes res")
      case False
      with Cons.prems Some i esc show ?thesis by simp
    next
      case True
      with Cons.prems Some i esc obtain rs'
        where "everyHook f env h m hooks st1 = Some (((rs', passed), r), st')"
        by (cases "everyHook f env h m hooks st1") auto
      then show ?thesis by (rule Cons.IH)
    qed
  qed
qed

lemma sendMessage_quiet:
  assumes "quiet env"
  shows "sendMessage (Suc f) env h m st \<noteq> None"
proof -
  have a: "\<exists>t r st1. invokeHandler (Suc f) env h m s = Some ((t, r), st1)" for s
    using invokeHandler_quiet [OF assms, of f h m s] by auto
  have b: "\<exists>rs passed r st1. everyHook (Suc f) env h m hooks st = Some (((rs, passed), r), st1)"
    for hooks
    using everyHook_quiet [OF assms, of f h m hooks st] by auto
  show ?thesis
  proof (cases "messageHooks st h")
    case None
    with a [of st] show ?thesis by (auto simp: sendMessage.simps)
  next
    case (Some hooks)
    show ?thesis
    proof (cases "hooks = []")
      case True
      with Some a [of st] show ?thesis by (auto simp: sendMessage.simps)
    next
      case False
      from b [of "rev hooks"] obtain rs passed r st1
        where e: "everyHook (Suc f) env h m (rev hooks) st = Some (((rs, passed), r), st1)"
        by blast
      with Some False a [of st1] show ?thesis
        by (cases r) (auto simp: sendMessage.simps)
    qed
  qed
qed

lemma sendMessage_calm:
  assumes "calmLoop env" and "sendMessage f env h m st = Some ((obs, r), st')"
  shows "r = None"
proof -
  have a: "r = None" if "invokeHandler f env h m s = Some ((t, r), st')" for s t
    using invokeHandler_calm [OF assms(1) that] .
  show ?thesis
  proof (cases "messageHooks st h")
    case None
    with assms(2) a show ?thesis by (auto simp: sendMessage.simps split: option.splits)
  next
    case (Some hooks)
    show ?thesis
    proof (cases "hooks = []")
      case True
      with Some assms(2) a show ?thesis by (auto simp: sendMessage.simps split: option.splits)
    next
      case False
      with Some assms(2) obtain rs passed esc st1
        where e: "everyHook f env h m (rev hooks) st = Some (((rs, passed), esc), st1)"
        by (cases "everyHook f env h m (rev hooks) st") (auto simp: sendMessage.simps)
      from everyHook_calm [OF assms(1) e] have esc: "esc = None" .
      with Some False assms(2) e a show ?thesis
        by (auto simp: sendMessage.simps split: option.splits if_splits)
    qed
  qed
qed

lemma handleLoopException_trace:
  assumes "handleLoopException f env e s = Some (r, st2)"
  shows "\<exists>more. trace st2 = trace s @ ErrorCall (loopExceptionHandler s) e # more"
proof -
  let ?s1 = "s\<lparr>trace := trace s @ [ErrorCall (loopExceptionHandler s) e]\<rparr>"
  from assms have "runL f env (onError env (loopExceptionHandler s) e ?s1) ?s1 = Some (r, st2)"
    by (simp add: handleLoopException.simps Let_def)
  with logs_runL [of ?s1 f env "onError env (loopExceptionHandler s) e ?s1"]
  have "prefix (trace ?s1) (trace st2)" by (simp add: logs_Some)
  then show ?thesis by (auto simp: prefix_def)
qed

lemma invokeHook_routes:
  assumes "invokeHook (Suc f) env k h m st = Some ((Threw e, r), st1)"
  shows "\<exists>s more.
           runL f env (fst (messageHook env k h m (st\<lparr>trace := trace st @ [HookCall k h m]\<rparr>)))
             (st\<lparr>trace := trace st @ [HookCall k h m]\<rparr>) = Some (Some e, s) \<and>
           trace st1 = trace s @ ErrorCall (loopExceptionHandler s) e # more"
proof -
  let ?st0 = "st\<lparr>trace := trace st @ [HookCall k h m]\<rparr>"
  from assms obtain s where run: "runL f env (fst (messageHook env k h m ?st0)) ?st0 = Some (Some e, s)"
    and hl: "handleLoopException f env e s = Some (r, st1)"
    by (auto simp: Let_def split: option.splits)
  from handleLoopException_trace [OF hl] run show ?thesis by blast
qed

lemma everyHook_hooksFrom:
  "everyHook f env h m ks st = Some (((rs, passed), r), st') \<Longrightarrow> hooksFrom f env h m st rs r st'"
proof (induction ks arbitrary: st rs passed r st')
  case Nil
  then show ?case by simp
next
  case (Cons ko ks)
  show ?case
  proof (cases ko)
    case None
    with Cons.prems have "everyHook f env h m ks st = Some (((rs, passed), r), st')" by simp
    from Cons.IH [OF this] show ?thesis .
  next
    case (Some k)
    with Cons.prems obtain res rr st1 where inv: "invokeHook f env k h m st = Some ((res, rr), st1)"
      by (auto split: option.splits)
    show ?thesis
    proof (cases "rr = None \<and> passes res")
      case False
      with Cons.prems Some inv have "rs = [(k, res)]" "r = rr" "st' = st1"
        by (auto split: option.splits)
      with inv False show ?thesis by simp
    next
      case True
      with Cons.prems Some inv obtain rs1 passed1 where
        rest: "everyHook f env h m ks st1 = Some (((rs1, passed1), r), st')"
        and rs: "rs = (k, res) # rs1"
        by (auto split: option.splits)
      from Cons.IH [OF rest] inv True rs show ?thesis by simp
    qed
  qed
qed

lemma sendMessage_hooksFrom:
  assumes "sendMessage f env h m st = Some ((obs, r), st')"
  shows "\<exists>rh s1. hooksFrom f env h m st (hooksRun obs) rh s1 \<and>
           (handled obs = None \<longrightarrow> r = rh \<and> st' = s1) \<and>
           (\<forall>t. handled obs = Some t \<longrightarrow>
              rh = None \<and> invokeHandler f env h m s1 = Some ((t, r), st'))"
proof (cases "messageHooks st h = None \<or> messageHooks st h = Some []")
  case True
  with assms obtain t where "invokeHandler f env h m st = Some ((t, r), st')"
    and "obs = \<lparr>hooksRun = [], handled = Some t\<rparr>"
    by (auto simp add: sendMessage.simps split: option.splits)
  then have "hooksFrom f env h m st (hooksRun obs) None st \<and>
           (handled obs = None \<longrightarrow> r = None \<and> st' = st) \<and>
           (\<forall>t. handled obs = Some t \<longrightarrow>
              None = (None::err option) \<and> invokeHandler f env h m st = Some ((t, r), st'))"
    by simp
  then show ?thesis by (intro exI)
next
  case False
  then obtain hooks where hk: "messageHooks st h = Some hooks" "hooks \<noteq> []" by auto
  with assms obtain rs passed rh s1 where
    ev: "everyHook f env h m (rev hooks) st = Some (((rs, passed), rh), s1)"
    by (auto simp add: sendMessage.simps split: option.splits)
  from everyHook_hooksFrom [OF ev] have hf: "hooksFrom f env h m st rs rh s1" .
  show ?thesis
  proof (cases "rh = None \<and> passed")
    case False
    with assms hk ev have "obs = \<lparr>hooksRun = rs, handled = None\<rparr>" "r = rh" "st' = s1"
      by (auto simp add: sendMessage.simps split: option.splits if_splits)
    with hf have "hooksFrom f env h m st (hooksRun obs) rh s1 \<and>
           (handled obs = None \<longrightarrow> r = rh \<and> st' = s1) \<and>
           (\<forall>t. handled obs = Some t \<longrightarrow>
              rh = None \<and> invokeHandler f env h m s1 = Some ((t, r), st'))"
      by simp
    then show ?thesis by (intro exI)
  next
    case True
    with assms hk ev obtain t where "invokeHandler f env h m s1 = Some ((t, r), st')"
      and "obs = \<lparr>hooksRun = rs, handled = Some t\<rparr>"
      by (auto simp add: sendMessage.simps split: option.splits)
    with hf True have "hooksFrom f env h m st (hooksRun obs) rh s1 \<and>
           (handled obs = None \<longrightarrow> r = rh \<and> st' = s1) \<and>
           (\<forall>t. handled obs = Some t \<longrightarrow>
              rh = None \<and> invokeHandler f env h m s1 = Some ((t, r), st'))"
      by simp
    then show ?thesis by (intro exI)
  qed
qed






subsection \<open>Draining the queue\<close>

text \<open>
  User code that does not call \<^verbatim>\<open>flush\<close> cannot remove an entry from the queue: it
  clears entries, has messages conflated, and adds entries at the end.
\<close>

lemma steady_refl: "steady p p"
  by (simp add: steady_def)

lemma steady_trans: "steady p p' \<Longrightarrow> steady p' p'' \<Longrightarrow> steady p p''"
  unfolding steady_def by auto

lemma steady_all_refl: "list_all2 steady q q"
  by (simp add: list_all2_refl steady_refl)

lemma steady_all_trans:
  "list_all2 steady q q' \<Longrightarrow> list_all2 steady q' q'' \<Longrightarrow> list_all2 steady q q''"
  by (rule list_all2_trans [of steady steady steady]) (auto intro: steady_trans)

lemma steady_pids: "list_all2 steady q q' \<Longrightarrow> map pid q' = map pid q"
  by (induction rule: list_all2_induct) (simp_all add: steady_def)

lemma extends_refl: "extends st st"
proof -
  have "messageQueue st = messageQueue st @ []" by simp
  moreover have "list_all2 steady (messageQueue st) (messageQueue st)" by (rule steady_all_refl)
  ultimately show ?thesis unfolding extends_def by force
qed

lemma extends_same:
  "messageQueue s = messageQueue st \<Longrightarrow> nextPid s = nextPid st \<Longrightarrow> extends st s"
  using extends_refl [of st] by (simp add: extends_def)

lemma extends_trans:
  assumes "extends s0 s1" and "extends s1 s2"
  shows "extends s0 s2"
proof -
  from assms(1) obtain k1 n1 where q1: "messageQueue s1 = k1 @ n1"
    and a1: "list_all2 steady (messageQueue s0) k1"
    and b1: "\<forall>p \<in> set n1. nextPid s0 \<le> pid p \<and> pid p < nextPid s1"
    and le1: "nextPid s0 \<le> nextPid s1"
    unfolding extends_def by blast
  from assms(2) obtain k2 n2 where q2: "messageQueue s2 = k2 @ n2"
    and a2: "list_all2 steady (messageQueue s1) k2"
    and b2: "\<forall>p \<in> set n2. nextPid s1 \<le> pid p \<and> pid p < nextPid s2"
    and le2: "nextPid s1 \<le> nextPid s2"
    unfolding extends_def by blast
  from a2 q1 obtain k2a k2b where k2: "k2 = k2a @ k2b"
    and a2a: "list_all2 steady k1 k2a" and a2b: "list_all2 steady n1 k2b"
    by (auto simp: list_all2_append1)
  from a1 a2a have a: "list_all2 steady (messageQueue s0) k2a" by (rule steady_all_trans)
  from steady_pids [OF a2b] have "pid ` set k2b = pid ` set n1"
    by (metis set_map)
  with b1 le2 have bb: "\<forall>p \<in> set k2b. nextPid s0 \<le> pid p \<and> pid p < nextPid s2"
    by (metis (no_types, lifting) image_iff less_le_trans)
  from b2 le1 have "\<forall>p \<in> set n2. nextPid s0 \<le> pid p \<and> pid p < nextPid s2"
    by (meson le_trans)
  with bb have b: "\<forall>p \<in> set (k2b @ n2). nextPid s0 \<le> pid p \<and> pid p < nextPid s2" by auto
  have "messageQueue s2 = k2a @ (k2b @ n2)" by (simp add: q2 k2)
  with a b le1 le2 show ?thesis unfolding extends_def by (meson le_trans)
qed

lemma extends_enqueueMessage: "extends st (enqueueMessage h m st)"
proof -
  let ?e = "\<lparr>pid = nextPid st, handler = Some h, msg = Some m\<rparr>"
  have q: "messageQueue (enqueueMessage h m st) = messageQueue st @ [?e]"
    and n: "nextPid (enqueueMessage h m st) = Suc (nextPid st)"
    by (simp_all add: enqueueMessage_def Let_def split: prod.splits)
  have "list_all2 steady (messageQueue st) (messageQueue st)" by (rule steady_all_refl)
  moreover have "\<forall>p \<in> set [?e]. nextPid st \<le> pid p \<and> pid p < Suc (nextPid st)" by simp
  ultimately show ?thesis unfolding extends_def q n by (metis le_SucI order_refl)
qed

lemma steady_consult: "steady p (consult cf h m p)"
  by (auto simp: steady_def consult_def candidate_def split: option.splits)

lemma steady_conflateScan: "list_all2 steady q (snd (conflateScan cf h m q))"
proof (induction q)
  case Nil
  show ?case by simp
next
  case (Cons p q)
  show ?case
  proof (cases "accepts cf h m p")
    case True
    then show ?thesis
      by (simp only: conflateScan_accept [OF True] snd_conv list_all2_Cons steady_consult
          steady_all_refl simp_thms)
  next
    case False
    with Cons show ?thesis
      by (simp only: conflateScan_reject [OF False] snd_conv list_all2_Cons steady_consult
          simp_thms)
  qed
qed

lemma extends_queue:
  "list_all2 steady (messageQueue st) q \<Longrightarrow> extends st (st\<lparr>messageQueue := q\<rparr>)"
  unfolding extends_def by force

lemma extends_postMessage: "extends st (postMessage cf h m st)"
proof (cases "isConflatable m")
  case False
  then show ?thesis by (simp add: postMessage_def extends_enqueueMessage)
next
  case True
  obtain b q where cs: "conflateScan cf h m (messageQueue st) = (b, q)"
    by (cases "conflateScan cf h m (messageQueue st)")
  let ?st1 = "st\<lparr>messageQueue := q\<rparr>"
  from steady_conflateScan [of "messageQueue st" cf h m] cs
  have "list_all2 steady (messageQueue st) q" by simp
  then have e1: "extends st ?st1" by (rule extends_queue)
  show ?thesis
  proof (cases b)
    case c: True
    with True e1 cs show ?thesis by (simp add: postMessage_def Let_def)
  next
    case c: False
    from e1 extends_enqueueMessage have "extends st (enqueueMessage h m ?st1)"
      by (rule extends_trans)
    with True c cs show ?thesis by (simp add: postMessage_def Let_def)
  qed
qed

lemma cleanHooks_queue:
  "messageQueue (cleanHooks h st) = messageQueue st" "nextPid (cleanHooks h st) = nextPid st"
  by (simp_all add: cleanHooks_def split: prod.splits)

lemma extends_clearData: "extends st (clearData h st)"
proof -
  have a: "list_all2 steady q
      (map (\<lambda>p. if handler p = Some h then p\<lparr>handler := None, msg := None\<rparr> else p) q)" for q
    by (induction q) (simp_all add: steady_def)
  have "messageQueue (clearData h st) =
      map (\<lambda>p. if handler p = Some h then p\<lparr>handler := None, msg := None\<rparr> else p) (messageQueue st)"
    and "nextPid (clearData h st) = nextPid st"
    by (simp_all add: clearData_def Let_def cleanHooks_queue split: option.splits)
  with a [of "messageQueue st"] show ?thesis unfolding extends_def by force
qed

lemma extends_performL: "extends st (performL cf c st)"
proof (cases c)
  case (PostMessage h m)
  then show ?thesis by (simp add: extends_postMessage)
next
  case (InstallMessageHook h k)
  then show ?thesis by (auto simp: installMessageHook_def intro: extends_same split: option.splits)
next
  case (RemoveMessageHook h k)
  then show ?thesis
    by (auto simp: removeMessageHook_def cleanHooks_queue intro: extends_same split: option.splits)
next
  case (ClearData h)
  then show ?thesis by (simp add: extends_clearData)
next
  case (SetLoopExceptionHandler eh)
  then show ?thesis by (simp add: setLoopExceptionHandler_def extends_same)
qed

lemma extended_None: "extended st None"
  by (simp add: extended_def)

lemma extended_Some: "extended st (Some (y, st')) \<longleftrightarrow> extends st st'"
  by (simp add: extended_def)

lemma extended_step: "extends st s1 \<Longrightarrow> extended s1 res \<Longrightarrow> extended st res"
  by (auto simp: extended_def intro: extends_trans split: option.splits)

lemma extends_trace: "extends st (st\<lparr>trace := t\<rparr>)"
  by (rule extends_same) simp_all

lemma extended_runL:
    "flushFree env \<Longrightarrow> Flush \<notin> set as \<Longrightarrow> extended st (runL f env as st)"
  and extended_sendMessage: "flushFree env \<Longrightarrow> extended st (sendMessage f env h m st)"
  and extended_everyHook: "flushFree env \<Longrightarrow> extended st (everyHook f env h m hooks st)"
  and extended_invokeHook: "flushFree env \<Longrightarrow> extended st (invokeHook f env k h m st)"
  and extended_invokeHandler: "flushFree env \<Longrightarrow> extended st (invokeHandler f env h m st)"
  and extended_handleLoopException:
    "flushFree env \<Longrightarrow> extended st (handleLoopException f env e st)"
  and "logs st (flush f env st)"
  and "logs st (runMessageLoop f env st)"
  and "logs st (drain f env s st)"
proof (induction f env as st and f env h m st and f env h m hooks st and f env k h m st
    and f env h m st and f env e st and f env st and f env st and f env s st
    rule: runL_sendMessage_everyHook_invokeHook_invokeHandler_handleLoopException_flush_runMessageLoop_drain.induct)
  case (1 f env st)
  show ?case by (simp add: extended_Some extends_refl)
next
  case (2 f env c as st)
  from "2.prems" have "Flush \<notin> set as" by simp
  from "2.IH" [OF "2.prems"(1) this]
  have "extended (performL (conflate env) c st) (runL f env as (performL (conflate env) c st))" .
  with extends_performL have "extended st (runL f env as (performL (conflate env) c st))"
    by (rule extended_step)
  then show ?case by simp
next
  case (3 f env e as st)
  show ?case by (simp add: extended_Some extends_refl)
next
  case (4 f env h m as st)
  from "4.prems" have nf: "Flush \<notin> set as" by simp
  show ?case
  proof (cases "sendMessage f env h m st")
    case None
    then show ?thesis by (simp add: extended_None)
  next
    case (Some p)
    obtain obs r st1 where p: "p = ((obs, r), st1)" by (cases p) auto
    from "4.IH"(1) [OF "4.prems"(1)] Some p have g: "extends st st1" by (simp add: extended_Some)
    show ?thesis
    proof (cases r)
      case e: (Some e)
      with Some p g show ?thesis by (simp add: extended_Some)
    next
      case None
      from "4.IH"(2) [OF Some [unfolded p None] refl refl refl "4.prems"(1) nf]
      have "extended st1 (runL f env as st1)" .
      with g have "extended st (runL f env as st1)" by (rule extended_step)
      with Some p None show ?thesis by simp
    qed
  qed
next
  case (5 f env as st)
  then show ?case by simp
next
  case (6 f env h m st)
  show ?case
  proof (cases "messageHooks st h")
    case None
    from "6.IH"(1) [OF None "6.prems"] None show ?thesis
      by (auto simp: sendMessage.simps extended_def split: option.splits)
  next
    case (Some hooks)
    show ?thesis
    proof (cases "hooks = []")
      case True
      from "6.IH"(2) [OF Some True "6.prems"] Some True show ?thesis
        by (auto simp: sendMessage.simps extended_def split: option.splits)
    next
      case False
      show ?thesis
      proof (cases "everyHook f env h m (rev hooks) st")
        case None
        with Some False show ?thesis by (simp add: sendMessage.simps extended_None)
      next
        case q: (Some q)
        obtain rs passed r st1 where q': "q = (((rs, passed), r), st1)" by (cases q) auto
        from "6.IH"(3) [OF Some False "6.prems"] q q'
        have g: "extends st st1" by (simp add: extended_Some)
        show ?thesis
        proof (cases "r = None \<and> passed")
          case False
          with Some \<open>hooks \<noteq> []\<close> q q' g show ?thesis
            by (auto simp: sendMessage.simps extended_Some split: option.splits)
        next
          case True
          then have r: "r = None" and pa: passed by simp_all
          from "6.IH"(4) [OF Some \<open>hooks \<noteq> []\<close> q [unfolded q' r] refl refl refl refl pa "6.prems"]
          have "extended st1 (invokeHandler f env h m st1)" .
          with g have "extended st (invokeHandler f env h m st1)" by (rule extended_step)
          with Some \<open>hooks \<noteq> []\<close> q q' r pa show ?thesis
            by (auto simp: sendMessage.simps extended_def split: option.splits)
        qed
      qed
    qed
  qed
next
  case (7 f env h m st)
  show ?case by (simp add: extended_Some extends_refl)
next
  case (8 f env h m hooks st)
  then show ?case by simp
next
  case (9 f env h m hook hooks st)
  show ?case
  proof (cases "invokeHook f env hook h m st")
    case None
    then show ?thesis by (simp add: extended_None)
  next
    case (Some p)
    obtain res r st1 where p: "p = ((res, r), st1)" by (cases p) auto
    from "9.IH"(1) [OF "9.prems"] Some p have g: "extends st st1" by (simp add: extended_Some)
    show ?thesis
    proof (cases "r = None \<and> passes res")
      case False
      with Some p g show ?thesis by (auto simp: extended_Some split: option.splits)
    next
      case True
      then have r: "r = None" and pa: "passes res" by simp_all
      from "9.IH"(2) [OF Some [unfolded p r] refl refl refl pa "9.prems"]
      have "extended st1 (everyHook f env h m hooks st1)" .
      with g have "extended st (everyHook f env h m hooks st1)" by (rule extended_step)
      with Some p r pa show ?thesis
        by (auto simp: extended_def split: option.splits)
    qed
  qed
next
  case (10 env hook h m st)
  show ?case by (simp add: extended_None)
next
  case (11 f env hook h m st)
  let ?st0 = "st\<lparr>trace := trace st @ [HookCall hook h m]\<rparr>"
  let ?as = "fst (messageHook env hook h m ?st0)"
  have g0: "extends st ?st0" by (rule extends_trace)
  from "11.prems" have nf: "Flush \<notin> set ?as" by (simp add: flushFree_def)
  show ?case
  proof (cases "runL f env ?as ?st0")
    case None
    then show ?thesis by (simp add: Let_def extended_None)
  next
    case (Some p)
    obtain r st1 where p: "p = (r, st1)" by (cases p)
    from "11.IH"(1) [OF refl "11.prems" nf] Some p have g1: "extends ?st0 st1"
      by (simp add: extended_Some)
    with g0 have g: "extends st st1" by (rule extends_trans)
    show ?thesis
    proof (cases r)
      case None
      with Some p g show ?thesis by (simp add: Let_def extended_Some)
    next
      case e: (Some e)
      from "11.IH"(2) [OF refl Some [unfolded p e] refl refl "11.prems"]
      have "extended st1 (handleLoopException f env e st1)" .
      with g have "extended st (handleLoopException f env e st1)" by (rule extended_step)
      with Some p e show ?thesis
        by (auto simp: Let_def extended_def split: option.splits)
    qed
  qed
next
  case (12 env h m st)
  show ?case by (simp add: extended_None)
next
  case (13 f env h m st)
  let ?st0 = "st\<lparr>trace := trace st @ [HandlerCall h m]\<rparr>"
  let ?as = "processMessage env h m ?st0"
  have g0: "extends st ?st0" by (rule extends_trace)
  from "13.prems" have nf: "Flush \<notin> set ?as" by (simp add: flushFree_def)
  show ?case
  proof (cases "runL f env ?as ?st0")
    case None
    then show ?thesis by (simp add: Let_def extended_None)
  next
    case (Some p)
    obtain r st1 where p: "p = (r, st1)" by (cases p)
    from "13.IH"(1) [OF refl "13.prems" nf] Some p have g1: "extends ?st0 st1"
      by (simp add: extended_Some)
    with g0 have g: "extends st st1" by (rule extends_trans)
    show ?thesis
    proof (cases r)
      case None
      with Some p g show ?thesis by (simp add: Let_def extended_Some)
    next
      case e: (Some e)
      from "13.IH"(2) [OF refl Some [unfolded p e] refl refl "13.prems"]
      have "extended st1 (handleLoopException f env e st1)" .
      with g have "extended st (handleLoopException f env e st1)" by (rule extended_step)
      with Some p e show ?thesis
        by (auto simp: Let_def extended_def split: option.splits)
    qed
  qed
next
  case (14 f env e st)
  let ?st1 = "st\<lparr>trace := trace st @ [ErrorCall (loopExceptionHandler st) e]\<rparr>"
  have g0: "extends st ?st1" by (rule extends_trace)
  from "14.prems" have nf: "Flush \<notin> set (onError env (loopExceptionHandler st) e ?st1)"
    by (simp add: flushFree_def)
  from "14.IH" [OF refl "14.prems" nf]
  have "extended ?st1 (runL f env (onError env (loopExceptionHandler st) e ?st1) ?st1)" .
  with g0 have "extended st (runL f env (onError env (loopExceptionHandler st) e ?st1) ?st1)"
    by (rule extended_step)
  then show ?case by (simp add: handleLoopException.simps Let_def)
next
  case (15 f env st)
  show ?case by (rule logs_flush)
next
  case (16 f env st)
  show ?case by (rule logs_runMessageLoop)
next
  case (17 env sentinel st)
  show ?case by (rule logs_drain)
next
  case (18 f env sentinel st)
  show ?case by (rule logs_drain)
qed

lemma enqueueMessage_fields:
  "messageHooks (enqueueMessage h m st) = messageHooks st"
  "trace (enqueueMessage h m st) = trace st"
  by (simp_all add: enqueueMessage_def Let_def split: prod.splits)

lemma length_entriesFrom: "length (entriesFrom n ps) = length ps"
  by (induction n ps rule: entriesFrom.induct) simp_all

lemma pids_entriesFrom: "map pid (entriesFrom n ps) = [n..<n + length ps]"
proof (induction n ps rule: entriesFrom.induct)
  case (1 n)
  show ?case by simp
next
  case (2 n h m ps)
  then show ?case by (simp add: upt_rec)
qed

lemma posts_nonconflatable:
  assumes "\<forall>(h, m) \<in> set ps. \<not> isConflatable m"
  shows "messageQueue (posts cf ps st) = messageQueue st @ entriesFrom (nextPid st) ps \<and>
         nextPid (posts cf ps st) = nextPid st + length ps \<and>
         messageHooks (posts cf ps st) = messageHooks st \<and>
         trace (posts cf ps st) = trace st"
  using assms
proof (induction ps arbitrary: st)
  case Nil
  show ?case by (simp add: posts_def)
next
  case (Cons p ps)
  obtain h m where p: "p = (h, m)" by (cases p)
  with Cons.prems have nc: "\<not> isConflatable m" and rest: "\<forall>(h, m) \<in> set ps. \<not> isConflatable m"
    by simp_all
  from nc have step: "postMessage cf h m st = enqueueMessage h m st" by (simp add: postMessage_def)
  have unfold: "posts cf (p # ps) st = posts cf ps (enqueueMessage h m st)"
    by (simp add: posts_def p step)
  from Cons.IH [OF rest, of "enqueueMessage h m st"] show ?case
    unfolding unfold
    by (simp add: p enqueueMessage_queue enqueueMessage_nextPid enqueueMessage_fields)
qed

lemma pidsOK_posts:
  assumes "\<forall>(h, m) \<in> set ps. \<not> isConflatable m" and "pidsOK st"
  shows "pidsOK (posts cf ps st)"
proof -
  from posts_nonconflatable [OF assms(1), of cf st]
  have q: "messageQueue (posts cf ps st) = messageQueue st @ entriesFrom (nextPid st) ps"
    and n: "nextPid (posts cf ps st) = nextPid st + length ps" by simp_all
  have "\<forall>p \<in> set (entriesFrom (nextPid st) ps). pid p < nextPid st + length ps"
  proof
    fix p assume "p \<in> set (entriesFrom (nextPid st) ps)"
    then have "pid p \<in> set (map pid (entriesFrom (nextPid st) ps))" by simp
    then show "pid p < nextPid st + length ps" by (simp add: pids_entriesFrom)
  qed
  with assms(2) show ?thesis unfolding pidsOK_def q n by auto
qed

lemma steady_poppedAs:
  assumes "steady p p'" and "msg p = Some m" and "\<not> isConflatable m"
  shows "poppedAs p p'"
proof -
  from assms have "pid p' = pid p"
    and "(handler p' = None \<and> msg p' = None) \<or> (handler p' = handler p \<and> msg p' = msg p)"
    unfolding steady_def by auto
  then show ?thesis unfolding poppedAs_def cleared_def by (cases p; cases p') auto
qed

lemma steady_entriesFrom:
  assumes "\<forall>(h, m) \<in> set ps. \<not> isConflatable m"
  shows "list_all2 steady (take k (entriesFrom n ps)) q \<Longrightarrow>
         list_all2 poppedAs (take k (entriesFrom n ps)) q"
  using assms
proof (induction n ps arbitrary: k q rule: entriesFrom.induct)
  case (1 n)
  then show ?case by simp
next
  case (2 n h m ps)
  show ?case
  proof (cases k)
    case 0
    with "2.prems" show ?thesis by simp
  next
    case (Suc k')
    let ?p = "\<lparr>pid = n, handler = Some h, msg = Some m\<rparr>"
    from "2.prems"(1) Suc obtain p' q' where q: "q = p' # q'" and s: "steady ?p p'"
      and rest: "list_all2 steady (take k' (entriesFrom (Suc n) ps)) q'"
      by (auto simp: list_all2_Cons1)
    from "2.prems"(2) have nc: "\<not> isConflatable m" and r: "\<forall>(h, m) \<in> set ps. \<not> isConflatable m"
      by simp_all
    from steady_poppedAs [OF s _ nc] have "poppedAs ?p p'" by simp
    with "2.IH" [OF rest r] q Suc show ?thesis by simp
  qed
qed

lemma steady_split:
  assumes "list_all2 steady (front @ S # behind) kept"
  obtains front1 S1 behind1 where "kept = front1 @ S1 # behind1"
    and "list_all2 steady front front1" and "steady S S1" and "list_all2 steady behind behind1"
  using assms by (auto simp: list_all2_append1 list_all2_Cons1)

text \<open>
  A loop that ends has removed the entries in front of its sentinel one by one from the
  front; it has removed all of them when no value left it.
\<close>

lemma drain_fifo:
  assumes "flushFree env"
  shows "drain f env s st = Some ((pops, r), st') \<Longrightarrow>
         messageQueue st = front @ S # behind \<Longrightarrow> pid S = s \<Longrightarrow> s \<notin> pid ` set front \<Longrightarrow>
         length pops \<le> length front \<and>
         list_all2 steady (take (length pops) front) (map entry pops) \<and>
         (r = None \<longrightarrow> length pops = length front) \<and>
         (\<forall>pp \<in> set pops. (delivery pp = None) = (target (entry pp) = None)) \<and>
         (calmLoop env \<longrightarrow> r = None) \<and>
         (r = None \<longrightarrow>
            (\<exists>kept new. messageQueue st' = kept @ new \<and> list_all2 steady behind kept \<and>
               (\<forall>p \<in> set new. nextPid st \<le> pid p)))"
proof (induction f arbitrary: st front S behind pops r)
  case 0
  then show ?case by simp
next
  case (Suc f)
  show ?case
  proof (cases front)
    case Nil
    with Suc.prems have "pops = []" "r = None" "st' = st\<lparr>messageQueue := behind\<rparr>" by simp_all
    moreover have "\<exists>kept new. behind = kept @ new \<and> list_all2 steady behind kept \<and>
        (\<forall>p \<in> set new. nextPid st \<le> pid p)"
      using steady_all_refl [of behind] by (intro exI [of _ behind] exI [of _ "[]"]) simp
    ultimately show ?thesis using Nil by simp
  next
    case (Cons p front')
    with Suc.prems have ne: "pid p \<noteq> s" and ni: "s \<notin> pid ` set front'" by auto
    let ?st0 = "st\<lparr>messageQueue := front' @ S # behind\<rparr>"
    from Suc.prems(2) Cons have q: "messageQueue st = p # (front' @ S # behind)" by simp
    show ?thesis
    proof (cases "target p")
      case None
      with Suc.prems(1) q ne obtain ps
        where d: "drain f env s ?st0 = Some ((ps, r), st')"
          and pops: "pops = \<lparr>entry = p, delivery = None\<rparr> # ps"
        by (auto split: option.splits)
      from Suc.IH [OF d _ Suc.prems(3) ni, of behind] have ih:
        "length ps \<le> length front'"
        "list_all2 steady (take (length ps) front') (map entry ps)"
        "r = None \<longrightarrow> length ps = length front'"
        "\<forall>pp \<in> set ps. (delivery pp = None) = (target (entry pp) = None)"
        "calmLoop env \<longrightarrow> r = None"
        "r = None \<longrightarrow> (\<exists>kept new. messageQueue st' = kept @ new \<and> list_all2 steady behind kept \<and>
               (\<forall>p \<in> set new. nextPid st \<le> pid p))"
        by simp_all
      from ih None show ?thesis by (simp add: pops Cons steady_refl)
    next
      case (Some hm)
      obtain h m where hm: "hm = (h, m)" by (cases hm)
      from Suc.prems(1) q ne Some hm obtain obs r1 st1
        where sm: "sendMessage f env h m ?st0 = Some ((obs, r1), st1)"
        by (auto split: option.splits)
      from extended_sendMessage [OF assms, of ?st0 f h m] sm have ex: "extends ?st0 st1"
        by (simp add: extended_Some)
      then obtain kept new where q1: "messageQueue st1 = kept @ new"
        and k: "list_all2 steady (front' @ S # behind) kept"
        and nw: "\<forall>p \<in> set new. nextPid st \<le> pid p" and le: "nextPid st \<le> nextPid st1"
        unfolding extends_def by auto
      from k obtain front1 S1 behind1 where kept: "kept = front1 @ S1 # behind1"
        and f1: "list_all2 steady front' front1" and s1: "steady S S1"
        and b1: "list_all2 steady behind behind1"
        by (rule steady_split)
      show ?thesis
      proof (cases r1)
        case e: (Some e)
        with Suc.prems(1) q ne Some hm sm
        have pops: "pops = [\<lparr>entry = p, delivery = Some obs\<rparr>]" and r: "r = Some e"
          by simp_all
        from sendMessage_calm [OF _ sm] e have "\<not> calmLoop env" by auto
        with pops r Some show ?thesis by (simp add: Cons steady_refl)
      next
        case None
        with Suc.prems(1) q ne Some hm sm obtain ps
          where d: "drain f env s st1 = Some ((ps, r), st')"
            and pops: "pops = \<lparr>entry = p, delivery = Some obs\<rparr> # ps"
          by (auto split: option.splits)
        from q1 kept have q1': "messageQueue st1 = front1 @ S1 # (behind1 @ new)" by simp
        from s1 Suc.prems(3) have ps1: "pid S1 = s" by (simp add: steady_def)
        from steady_pids [OF f1] ni have ni1: "s \<notin> pid ` set front1" by (metis set_map)
        from Suc.IH [OF d q1' ps1 ni1] have ih:
          "length ps \<le> length front1"
          "list_all2 steady (take (length ps) front1) (map entry ps)"
          "r = None \<longrightarrow> length ps = length front1"
          "\<forall>pp \<in> set ps. (delivery pp = None) = (target (entry pp) = None)"
          "calmLoop env \<longrightarrow> r = None"
          "r = None \<longrightarrow> (\<exists>kept new'. messageQueue st' = kept @ new' \<and>
               list_all2 steady (behind1 @ new) kept \<and> (\<forall>p \<in> set new'. nextPid st1 \<le> pid p))"
          by simp_all
        from f1 have len: "length front1 = length front'" by (simp add: list_all2_lengthD)
        from f1 have "list_all2 steady (take (length ps) front') (take (length ps) front1)"
          by (rule list_all2_takeI)
        from steady_all_trans [OF this ih(2)]
        have st2: "list_all2 steady (take (length ps) front') (map entry ps)" .
        have fin: "\<exists>kept new. messageQueue st' = kept @ new \<and> list_all2 steady behind kept \<and>
               (\<forall>p \<in> set new. nextPid st \<le> pid p)" if "r = None"
        proof -
          from ih(6) that obtain kept' new' where q': "messageQueue st' = kept' @ new'"
            and k': "list_all2 steady (behind1 @ new) kept'"
            and n': "\<forall>p \<in> set new'. nextPid st1 \<le> pid p"
            by blast
          from k' obtain kb kn where kk: "kept' = kb @ kn" and kb: "list_all2 steady behind1 kb"
            and kn: "list_all2 steady new kn"
            by (auto simp: list_all2_append1)
          from steady_pids [OF kn] have "pid ` set kn = pid ` set new" by (metis set_map)
          with nw have "\<forall>p \<in> set kn. nextPid st \<le> pid p" by (metis (no_types, lifting) image_iff)
          moreover from n' le have "\<forall>p \<in> set new'. nextPid st \<le> pid p" by (meson le_trans)
          ultimately have "\<forall>p \<in> set (kn @ new'). nextPid st \<le> pid p" by auto
          moreover have "messageQueue st' = kb @ (kn @ new')" by (simp add: q' kk)
          moreover from b1 kb have "list_all2 steady behind kb" by (rule steady_all_trans)
          ultimately show ?thesis by blast
        qed
        from ih len st2 fin Some show ?thesis by (simp add: pops Cons steady_refl)
      qed
    qed
  qed
qed

lemma quiet_flushFree: "quiet env \<Longrightarrow> flushFree env"
  unfolding quiet_def flushFree_def by fastforce

lemma drain_quiet:
  assumes "quiet env"
  shows "messageQueue st = front @ S # behind \<Longrightarrow> pid S = s \<Longrightarrow> s \<notin> pid ` set front \<Longrightarrow>
         length front < f \<Longrightarrow> drain f env s st \<noteq> None"
proof (induction f arbitrary: st front S behind)
  case 0
  then show ?case by simp
next
  case (Suc f)
  show ?case
  proof (cases front)
    case Nil
    with Suc.prems show ?thesis by simp
  next
    case (Cons p front')
    with Suc.prems have ne: "pid p \<noteq> s" and ni: "s \<notin> pid ` set front'"
      and len: "length front' < f" by auto
    let ?st0 = "st\<lparr>messageQueue := front' @ S # behind\<rparr>"
    from Suc.prems(1) Cons have q: "messageQueue st = p # (front' @ S # behind)" by simp
    show ?thesis
    proof (cases "target p")
      case None
      from Suc.IH [OF _ Suc.prems(2) ni len, of ?st0 behind] have "drain f env s ?st0 \<noteq> None" by simp
      with q ne None show ?thesis by (auto split: option.splits)
    next
      case (Some hm)
      obtain h m where hm: "hm = (h, m)" by (cases hm)
      from len obtain f' where f: "f = Suc f'" by (cases f) auto
      from sendMessage_quiet [OF assms, of f' h m ?st0] f obtain obs r1 st1
        where sm: "sendMessage f env h m ?st0 = Some ((obs, r1), st1)" by auto
      show ?thesis
      proof (cases r1)
        case e: (Some e)
        with q ne Some hm sm show ?thesis by simp
      next
        case None
        from extended_sendMessage [OF quiet_flushFree [OF assms], of ?st0 f h m] sm
        have "extends ?st0 st1" by (simp add: extended_Some)
        then obtain kept new where q1: "messageQueue st1 = kept @ new"
          and k: "list_all2 steady (front' @ S # behind) kept"
          unfolding extends_def by auto
        from k obtain front1 S1 behind1 where kept: "kept = front1 @ S1 # behind1"
          and f1: "list_all2 steady front' front1" and s1: "steady S S1"
          by (rule steady_split)
        from q1 kept have q1': "messageQueue st1 = front1 @ S1 # (behind1 @ new)" by simp
        from s1 Suc.prems(2) have ps1: "pid S1 = s" by (simp add: steady_def)
        from steady_pids [OF f1] ni have ni1: "s \<notin> pid ` set front1" by (metis set_map)
        from f1 len have len1: "length front1 < f" by (simp add: list_all2_lengthD)
        from Suc.IH [OF q1' ps1 ni1 len1] have "drain f env s st1 \<noteq> None" .
        with q ne Some hm sm None show ?thesis by (auto split: option.splits)
      qed
    qed
  qed
qed

lemma runMessageLoop_fifo:
  assumes "flushFree env" and "pidsOK st"
    and "runMessageLoop f env st = Some ((pops, r), st')"
  shows "length pops \<le> length (messageQueue st) \<and>
         list_all2 steady (take (length pops) (messageQueue st)) (map entry pops) \<and>
         (r = None \<longrightarrow> length pops = length (messageQueue st)) \<and>
         (\<forall>pp \<in> set pops. (delivery pp = None) = (target (entry pp) = None)) \<and>
         (calmLoop env \<longrightarrow> r = None) \<and>
         (r = None \<longrightarrow> (\<forall>p \<in> set (messageQueue st'). nextPid st < pid p))"
proof (cases "messageQueue st = []")
  case True
  with assms(3) show ?thesis by (auto simp add: runMessageLoop.simps)
next
  case False
  let ?S = "\<lparr>pid = nextPid st, handler = None, msg = None\<rparr>"
  let ?st2 = "st\<lparr>loopTaskID := 0, messageQueue := messageQueue st @ [?S], nextPid := Suc (nextPid st)\<rparr>"
  from False assms(3) have d: "drain f env (nextPid st) ?st2 = Some ((pops, r), st')"
    by (simp add: runMessageLoop.simps Let_def)
  have q: "messageQueue ?st2 = messageQueue st @ ?S # []" by simp
  from assms(2) have ni: "nextPid st \<notin> pid ` set (messageQueue st)"
    unfolding pidsOK_def by auto
  from drain_fifo [OF assms(1) d q _ ni] have r:
    "length pops \<le> length (messageQueue st)"
    "list_all2 steady (take (length pops) (messageQueue st)) (map entry pops)"
    "r = None \<longrightarrow> length pops = length (messageQueue st)"
    "\<forall>pp \<in> set pops. (delivery pp = None) = (target (entry pp) = None)"
    "calmLoop env \<longrightarrow> r = None"
    "r = None \<longrightarrow> (\<exists>kept new. messageQueue st' = kept @ new \<and> list_all2 steady [] kept \<and>
               (\<forall>p \<in> set new. nextPid ?st2 \<le> pid p))"
    by simp_all
  from r(6) have "r = None \<longrightarrow> (\<forall>p \<in> set (messageQueue st'). nextPid st < pid p)"
    by auto
  with r show ?thesis by simp
qed

lemma drain_escape:
  assumes "flushFree env"
  shows "drain f env s st = Some ((pops, r), st') \<Longrightarrow>
         messageQueue st = front @ S # behind \<Longrightarrow> pid S = s \<Longrightarrow> s \<notin> pid ` set front \<Longrightarrow>
         r \<noteq> None \<Longrightarrow> pops \<noteq> [] \<and> delivery (last pops) \<noteq> None"
proof (induction f arbitrary: st front S behind pops)
  case 0
  then show ?case by simp
next
  case (Suc f)
  show ?case
  proof (cases front)
    case Nil
    with Suc.prems have "r = None" by simp
    with Suc.prems(5) show ?thesis by simp
  next
    case (Cons p front')
    with Suc.prems have ne: "pid p \<noteq> s" and ni: "s \<notin> pid ` set front'" by auto
    let ?st0 = "st\<lparr>messageQueue := front' @ S # behind\<rparr>"
    from Suc.prems(2) Cons have q: "messageQueue st = p # (front' @ S # behind)" by simp
    show ?thesis
    proof (cases "target p")
      case None
      with Suc.prems(1) q ne obtain ps
        where d: "drain f env s ?st0 = Some ((ps, r), st')"
          and pops: "pops = \<lparr>entry = p, delivery = None\<rparr> # ps"
        by (auto split: option.splits)
      from Suc.IH [OF d _ Suc.prems(3) ni Suc.prems(5), of behind]
      have "ps \<noteq> [] \<and> delivery (last ps) \<noteq> None" by simp
      then show ?thesis by (simp add: pops)
    next
      case (Some hm)
      obtain h m where hm: "hm = (h, m)" by (cases hm)
      from Suc.prems(1) q ne Some hm obtain obs r1 st1
        where sm: "sendMessage f env h m ?st0 = Some ((obs, r1), st1)"
        by (auto split: option.splits)
      show ?thesis
      proof (cases r1)
        case e: (Some e)
        with Suc.prems(1) q ne Some hm sm
        have "pops = [\<lparr>entry = p, delivery = Some obs\<rparr>]" by simp
        then show ?thesis by simp
      next
        case None
        with Suc.prems(1) q ne Some hm sm obtain ps
          where d: "drain f env s st1 = Some ((ps, r), st')"
            and pops: "pops = \<lparr>entry = p, delivery = Some obs\<rparr> # ps"
          by (auto split: option.splits)
        from extended_sendMessage [OF assms, of ?st0 f h m] sm have "extends ?st0 st1"
          by (simp add: extended_Some)
        then obtain kept new where q1: "messageQueue st1 = kept @ new"
          and k: "list_all2 steady (front' @ S # behind) kept"
          unfolding extends_def by auto
        from k obtain front1 S1 behind1 where kept: "kept = front1 @ S1 # behind1"
          and f1: "list_all2 steady front' front1" and s1: "steady S S1"
          by (rule steady_split)
        from q1 kept have q1': "messageQueue st1 = front1 @ S1 # (behind1 @ new)" by simp
        from s1 Suc.prems(3) have ps1: "pid S1 = s" by (simp add: steady_def)
        from steady_pids [OF f1] ni have ni1: "s \<notin> pid ` set front1" by (metis set_map)
        from Suc.IH [OF d q1' ps1 ni1 Suc.prems(5)]
        have "ps \<noteq> [] \<and> delivery (last ps) \<noteq> None" .
        then show ?thesis by (simp add: pops)
      qed
    qed
  qed
qed

lemma runMessageLoop_escape:
  assumes "flushFree env" and "pidsOK st"
    and "runMessageLoop f env st = Some ((pops, r), st')" and "r \<noteq> None"
  shows "pops \<noteq> [] \<and> delivery (last pops) \<noteq> None"
proof (cases "messageQueue st = []")
  case True
  with assms(3,4) show ?thesis by (auto simp add: runMessageLoop.simps)
next
  case False
  let ?S = "\<lparr>pid = nextPid st, handler = None, msg = None\<rparr>"
  let ?st2 = "st\<lparr>loopTaskID := 0, messageQueue := messageQueue st @ [?S], nextPid := Suc (nextPid st)\<rparr>"
  from False assms(3) have d: "drain f env (nextPid st) ?st2 = Some ((pops, r), st')"
    by (simp add: runMessageLoop.simps Let_def)
  have q: "messageQueue ?st2 = messageQueue st @ ?S # []" by simp
  from assms(2) have ni: "nextPid st \<notin> pid ` set (messageQueue st)"
    unfolding pidsOK_def by auto
  from drain_escape [OF assms(1) d q _ ni assms(4)] show ?thesis by simp
qed

lemma runMessageLoop_quiet:
  assumes "quiet env" and "pidsOK st" and "length (messageQueue st) < f"
  shows "runMessageLoop f env st \<noteq> None"
proof (cases "messageQueue st = []")
  case True
  then show ?thesis by (simp add: runMessageLoop.simps)
next
  case False
  let ?S = "\<lparr>pid = nextPid st, handler = None, msg = None\<rparr>"
  let ?st2 = "st\<lparr>loopTaskID := 0, messageQueue := messageQueue st @ [?S], nextPid := Suc (nextPid st)\<rparr>"
  have q: "messageQueue ?st2 = messageQueue st @ ?S # []" by simp
  from assms(2) have ni: "nextPid st \<notin> pid ` set (messageQueue st)"
    unfolding pidsOK_def by auto
  from drain_quiet [OF assms(1) q _ ni assms(3)] have "drain f env (nextPid st) ?st2 \<noteq> None"
    by simp
  with False show ?thesis by (simp add: runMessageLoop.simps Let_def)
qed

text \<open>
  Claim C2. The loop task is scheduled by a post of the message \<^verbatim>\<open>one\<close> and the host
  runs it. The handler, on receiving \<^verbatim>\<open>one\<close>, posts the message \<^verbatim>\<open>two\<close> to itself,
  which schedules the next loop task, and calls \<^verbatim>\<open>flush\<close>. The flush guard is not set
  by a run that the host started, so \<^verbatim>\<open>flush\<close> runs a second loop inside the first one.
  The inner loop removes the sentinel of the outer one as if it were a cleared entry,
  delivers \<^verbatim>\<open>two\<close> and stops at its own sentinel. The outer loop then finds the queue
  empty and fails with a \<^verbatim>\<open>TypeError\<close>. The message posted during the drain has been
  delivered within that drain.
\<close>

theorem C2_flush_inside_scheduled_drain:
  "\<exists>pops st'.
     fireLoopTask (Suc (Suc (Suc (Suc (Suc 0))))) reposting
       (postMessage plainConflate 7 (Message ''one'') newLoop) = Some ((pops, Some ''TypeError''), st') \<and>
     map (\<lambda>p. map_option type (msg (entry p))) pops = [Some ''one''] \<and>
     messageQueue st' = [] \<and>
     trace st' = [HandlerCall 7 (Message ''one''), HandlerCall 7 (Message ''two'')]"
  by (simp add: fireLoopTask_def reposting_def loop_eval queue_eval flush.simps runMessageLoop.simps)

text \<open>
  When the same drain is started by \<^verbatim>\<open>flush\<close>, the guard is set, the inner call of
  \<^verbatim>\<open>flush\<close> does nothing and the message \<^verbatim>\<open>two\<close> stays in the queue.
\<close>

lemma flush_defers_reposted:
  "\<exists>st'.
     flush (Suc (Suc (Suc (Suc (Suc 0))))) reposting
       (postMessage plainConflate 7 (Message ''one'') newLoop) = Some (None, st') \<and>
     map (\<lambda>p. map_option type (msg p)) (messageQueue st') = [Some ''two''] \<and>
     trace st' = [HandlerCall 7 (Message ''one'')]"
  by (simp add: reposting_def loop_eval queue_eval flush.simps runMessageLoop.simps)




end
